theory Spec2Isabelle
  imports Main
begin

section \<open>Python 2 byte strings\<close>

text \<open>
  scripts/jpdg/slicer.py is Python 2: a \<open>str\<close> is a byte string, and so is a HOL
  \<open>string\<close> (a list of 8-bit characters). The string methods the module calls are
  modelled here once, each after the method's documented behaviour.
\<close>

abbreviation NL :: char where "NL \<equiv> CHR 0x0A"
abbreviation SP :: char where "SP \<equiv> CHR 0x20"

text \<open>\<open>s.startswith(p)\<close>.\<close>

fun startswith :: "string \<Rightarrow> string \<Rightarrow> bool" where
  "startswith s [] = True"
| "startswith [] (p # ps) = False"
| "startswith (c # cs) (p # ps) = (c = p \<and> startswith cs ps)"

text \<open>\<open>s.find(sep)\<close>: the index of the first occurrence of \<open>sep\<close>, if any.\<close>

fun py_find :: "string \<Rightarrow> string \<Rightarrow> nat option" where
  "py_find sep [] = (if sep = [] then Some 0 else None)"
| "py_find sep (c # cs) =
     (if startswith (c # cs) sep then Some 0 else map_option Suc (py_find sep cs))"

text \<open>\<open>sep in s\<close>.\<close>

definition py_in :: "string \<Rightarrow> string \<Rightarrow> bool" where
  "py_in sep s = (py_find sep s \<noteq> None)"

text \<open>\<open>s.split(sep, 1)\<close>: one piece when \<open>sep\<close> does not occur, else the text before
  the first occurrence and the text after it.\<close>

definition py_split1 :: "string \<Rightarrow> string \<Rightarrow> string list" where
  "py_split1 sep s =
     (case py_find sep s of
        None \<Rightarrow> [s]
      | Some i \<Rightarrow> [take i s, drop (i + length sep) s])"

lemma py_find_bound: "py_find sep s = Some i \<Longrightarrow> startswith (drop i s) sep \<and> i \<le> length s"
proof (induction s arbitrary: i)
  case Nil
  then show ?case by (simp split: if_splits)
next
  case (Cons c cs)
  show ?case
  proof (cases "startswith (c # cs) sep")
    case True
    with Cons.prems show ?thesis by simp
  next
    case False
    with Cons.prems obtain j where j: "py_find sep cs = Some j" "i = Suc j"
      by auto
    with Cons.IH [of j] show ?thesis by simp
  qed
qed

lemma startswith_length: "startswith s p \<Longrightarrow> length p \<le> length s"
  by (induction s p rule: startswith.induct) auto

lemma py_find_length: "py_find sep s = Some i \<Longrightarrow> i + length sep \<le> length s"
proof -
  assume a: "py_find sep s = Some i"
  from py_find_bound [OF a] have "length sep \<le> length (drop i s)" and "i \<le> length s"
    by (auto dest: startswith_length)
  then show ?thesis by simp
qed

text \<open>\<open>s.split(sep)\<close> with a non-empty separator (Python raises ValueError on an empty
  one; the module only splits on the literal newline).\<close>

function py_split :: "string \<Rightarrow> string \<Rightarrow> string list" where
  "py_split sep s =
     (if sep = [] then [s]
      else case py_find sep s of
        None \<Rightarrow> [s]
      | Some i \<Rightarrow> take i s # py_split sep (drop (i + length sep) s))"
  by pat_completeness auto
termination py_split
proof (relation "measure (\<lambda>(sep, s). length s)")
  show "wf (measure (\<lambda>(sep, s). length s))" by simp
next
  fix sep s :: string and i :: nat
  assume "sep \<noteq> []" and f: "py_find sep s = Some i"
  from py_find_length [OF f] \<open>sep \<noteq> []\<close> have "0 < length s"
    by (cases s) auto
  moreover from \<open>sep \<noteq> []\<close> have "0 < i + length sep" by simp
  ultimately show "((sep, drop (i + length sep) s), (sep, s)) \<in> measure (\<lambda>(sep, s). length s)"
    by simp
qed

declare py_split.simps [simp del]

text \<open>\<open>s.strip()\<close>: the ASCII whitespace of the C locale is removed at both ends.\<close>

definition is_space :: "char \<Rightarrow> bool" where
  "is_space c = (c = SP \<or> c = CHR 0x09 \<or> c = NL \<or> c = CHR 0x0B \<or> c = CHR 0x0C \<or> c = CHR 0x0D)"

definition py_strip :: "string \<Rightarrow> string" where
  "py_strip s = dropWhile is_space (rev (dropWhile is_space (rev s)))"

text \<open>\<open>s.replace(c, '')\<close> for a one-character \<open>c\<close>.\<close>

definition py_remove :: "char \<Rightarrow> string \<Rightarrow> string" where
  "py_remove c s = filter (\<lambda>x. x \<noteq> c) s"

text \<open>\<open>int(s)\<close> on a byte string, base 10, as CPython 2.7 parses it
  (\<open>PyInt_FromString\<close>, \<open>PyOS_strtol\<close>, \<open>PyOS_strtoul\<close>): whitespace is skipped, an
  optional sign is taken, whitespace is skipped again, then come one or more decimal
  digits, then whitespace up to the end of the string; anything else is a ValueError
  (\<open>None\<close>). So \<open>int('- 3')\<close> is -3. Python's integers are unbounded.\<close>

definition is_digit :: "char \<Rightarrow> bool" where
  "is_digit c = (48 \<le> (of_char c :: nat) \<and> (of_char c :: nat) \<le> 57)"

definition digits_val :: "string \<Rightarrow> nat" where
  "digits_val ds = foldl (\<lambda>a c. 10 * a + (of_char c - 48)) 0 ds"

definition py_int :: "string \<Rightarrow> int option" where
  "py_int s =
     (let t = py_strip s;
          neg = (t \<noteq> [] \<and> hd t = CHR ''-'');
          ds = (if t \<noteq> [] \<and> (hd t = CHR ''-'' \<or> hd t = CHR ''+'')
                then dropWhile is_space (tl t) else t)
      in if ds \<noteq> [] \<and> list_all is_digit ds
         then Some (if neg then - int (digits_val ds) else int (digits_val ds))
         else None)"

section \<open>The base64 codec\<close>

text \<open>
  \<open>data.encode('base64')\<close> is \<open>base64.encodestring\<close>: the input is cut into pieces
  of 57 bytes and each piece is encoded by \<open>binascii.b2a_base64\<close>, which appends a
  newline. \<open>s.decode('base64')\<close> is \<open>binascii.a2b_base64\<close>. Both are library
  code; the model follows the C loops of binascii.
\<close>

definition b64_alphabet :: string where
  "b64_alphabet = ''ABCDEFGHIJKLMNOPQRSTUVWXYZabcdefghijklmnopqrstuvwxyz0123456789+/''"

abbreviation PAD :: char where "PAD \<equiv> CHR ''=''"

text \<open>\<open>table_b2a_base64[v]\<close>, for a six-bit value.\<close>

definition b2a_char :: "nat \<Rightarrow> char" where
  "b2a_char v = b64_alphabet ! v"

text \<open>The byte that \<open>table_b2a_base64\<close> holds at index \<open>v\<close>, computed: upper case,
  lower case, digits, plus and slash.\<close>

definition b2a_code :: "nat \<Rightarrow> nat" where
  "b2a_code v =
     (if v < 26 then v + 65 else if v < 52 then v + 71 else if v < 62 then v - 4
      else if v = 62 then 43 else 47)"

text \<open>\<open>table_a2b_base64[c]\<close> for a data character: its six-bit value, \<open>None\<close> for
  the table's -1. (The table maps the pad character to 0; the loops test for the pad
  before they look a character up.)\<close>

definition a2b_val :: "char \<Rightarrow> nat option" where
  "a2b_val c =
     (let n = (of_char c :: nat) in
      if 65 \<le> n \<and> n \<le> 90 then Some (n - 65)
      else if 97 \<le> n \<and> n \<le> 122 then Some (n - 71)
      else if 48 \<le> n \<and> n \<le> 57 then Some (n + 4)
      else if n = 43 then Some 62
      else if n = 47 then Some 63
      else None)"

text \<open>The loop of \<open>b2a_base64\<close>: three bytes give four characters; one or two bytes
  left over give two or three characters and the padding.\<close>

fun b2a_groups :: "string \<Rightarrow> string" where
  "b2a_groups [] = []"
| "b2a_groups [a] =
     (let x = (of_char a :: nat) in
      [b2a_char (x div 4), b2a_char ((x mod 4) * 16), PAD, PAD])"
| "b2a_groups [a, b] =
     (let x = (of_char a :: nat); y = (of_char b :: nat) in
      [b2a_char (x div 4), b2a_char ((x mod 4) * 16 + y div 16),
       b2a_char ((y mod 16) * 4), PAD])"
| "b2a_groups (a # b # c # rest) =
     (let x = (of_char a :: nat); y = (of_char b :: nat); z = (of_char c :: nat) in
      [b2a_char (x div 4), b2a_char ((x mod 4) * 16 + y div 16),
       b2a_char ((y mod 16) * 4 + z div 64), b2a_char (z mod 64)] @ b2a_groups rest)"

definition b2a_base64 :: "string \<Rightarrow> string" where
  "b2a_base64 s = b2a_groups s @ [NL]"

text \<open>\<open>base64.encodestring\<close>: \<open>for i in range(0, len(s), 57)\<close>.\<close>

function encodestring :: "string \<Rightarrow> string" where
  "encodestring s = (if s = [] then [] else b2a_base64 (take 57 s) @ encodestring (drop 57 s))"
  by pat_completeness auto
termination encodestring
  by (relation "measure length") auto

declare encodestring.simps [simp del]

text \<open>\<open>binascii_find_valid(s, slen, num)\<close>: the \<open>(num+1)\<close>-th character of \<open>s\<close>
  that is a base64 character (the pad counts as one), if there is one.\<close>

fun find_valid :: "string \<Rightarrow> nat \<Rightarrow> char option" where
  "find_valid [] num = None"
| "find_valid (c # cs) num =
     (if (of_char c :: nat) \<le> 127 \<and> (c = PAD \<or> a2b_val c \<noteq> None)
      then (if num = 0 then Some c else find_valid cs (num - 1))
      else find_valid cs num)"

text \<open>The loop of \<open>a2b_base64\<close> with its state \<open>quad_pos\<close>, \<open>leftbits\<close>,
  \<open>leftchar\<close>: bytes above 127, CR, LF and space are skipped, as is every other
  character outside the alphabet; a pad ends the input once two characters of the
  quad have been read (and, after exactly two, only when the next valid character
  is a pad too). The result is the final \<open>leftbits\<close> and the bytes written.\<close>

fun a2b_loop :: "nat \<Rightarrow> nat \<Rightarrow> nat \<Rightarrow> string \<Rightarrow> nat \<times> string" where
  "a2b_loop quad_pos leftbits leftchar [] = (leftbits, [])"
| "a2b_loop quad_pos leftbits leftchar (c # cs) =
     (if (of_char c :: nat) > 127 \<or> c = CHR 0x0D \<or> c = NL \<or> c = SP
      then a2b_loop quad_pos leftbits leftchar cs
      else if c = PAD
      then (if quad_pos < 2 \<or> (quad_pos = 2 \<and> find_valid (c # cs) 1 \<noteq> Some PAD)
            then a2b_loop quad_pos leftbits leftchar cs
            else (0, []))
      else case a2b_val c of
        None \<Rightarrow> a2b_loop quad_pos leftbits leftchar cs
      | Some v \<Rightarrow>
          (let quad_pos' = (quad_pos + 1) mod 4;
               leftchar' = leftchar * 64 + v;
               leftbits' = leftbits + 6
           in if leftbits' \<ge> 8
              then (let lb = leftbits' - 8;
                        r = a2b_loop quad_pos' lb (leftchar' mod 2 ^ lb) cs
                    in (fst r, char_of ((leftchar' div 2 ^ lb) mod 256) # snd r))
              else a2b_loop quad_pos' leftbits' leftchar' cs))"

datatype error =
    Exception "string option"
  | Base64Error
  | ValueError
  | AttributeError
  | BrokenPipe

text \<open>\<open>a2b_base64\<close>: bits left over after the loop are "Incorrect padding".\<close>

definition a2b_base64 :: "string \<Rightarrow> error + string" where
  "a2b_base64 s =
     (let r = a2b_loop 0 0 0 s in
      if fst r \<noteq> 0 then Inl Base64Error else Inr (snd r))"


section \<open>The Slicer object\<close>

text \<open>
  The fields of \<open>Slicer.__init__\<close>, with the effects on the subprocess, the reader
  thread and the condition variable recorded in the order they happen (\<open>trace\<close>):
  \<^item> \<open>slicer_lock\<close>: whether the \<open>threading.Lock\<close> is held;
  \<^item> \<open>lines\<close>: the deque, oldest line first;
  \<^item> \<open>waiting\<close>: the number of threads parked in \<open>lines_cv.wait()\<close>. The lock of
    \<open>lines_cv\<close> itself is only ever held inside a block that does not block
    (\<open>wait\<close> releases it), so it is free between any two blocks;
  \<^item> \<open>stderr\<close>: what \<open>print >>sys.stderr\<close> wrote.
\<close>

datatype action =
    Popen
  | StartReader
  | SetClosed
  | NotifyAll
  | Notify
  | Kill
  | JoinReader
  | WaitProc
  | StdinWrite string

record slicer =
  debug :: bool
  slicer_lock :: bool
  lines :: "string list"
  waiting :: nat
  closed :: bool
  trace :: "action list"
  stderr :: "string list"

text \<open>How a call ends: it returns, it raises, it is parked in \<open>lines_cv.wait()\<close>, or
  it blocks acquiring \<open>slicer_lock\<close>.\<close>

datatype 'a outcome = Returns 'a | Raises error | Waits | Blocks

definition init :: "bool \<Rightarrow> slicer" where
  "init dbg = \<lparr>debug = dbg, slicer_lock = False, lines = [], waiting = 0, closed = False,
               trace = [Popen, StartReader], stderr = []\<rparr>"

definition act :: "action \<Rightarrow> slicer \<Rightarrow> slicer" where
  "act a s = s\<lparr>trace := trace s @ [a]\<rparr>"

definition print_err :: "string \<Rightarrow> slicer \<Rightarrow> slicer" where
  "print_err m s = s\<lparr>stderr := stderr s @ [m]\<rparr>"

text \<open>\<open>self.closed = True\<close>; \<open>self.lines_cv.notifyAll()\<close>; \<open>self.lines_cv.notify()\<close>
  (no thread waiting: nothing happens).\<close>

definition set_closed :: "slicer \<Rightarrow> slicer" where
  "set_closed s = act SetClosed (s\<lparr>closed := True\<rparr>)"

definition notifyAll :: "slicer \<Rightarrow> slicer" where
  "notifyAll s = act NotifyAll (s\<lparr>waiting := 0\<rparr>)"

definition notify :: "slicer \<Rightarrow> slicer" where
  "notify s = act Notify (s\<lparr>waiting := waiting s - 1\<rparr>)"

subsection \<open>\<open>_close\<close> and \<open>close\<close>\<close>

text \<open>\<open>close_impl\<close> is \<open>_close\<close> (a HOL name cannot start with an underscore), and
  \<open>close_locked\<close> its body once \<open>slicer_lock\<close> has been acquired: both locks are
  released before \<open>self.p.kill()\<close>, and on the early return.\<close>

definition close_locked :: "bool \<Rightarrow> slicer \<Rightarrow> unit outcome \<times> slicer" where
  "close_locked from_read s =
     (if closed s
      then (Returns (), if debug s \<and> from_read then print_err ''read thread bailed'' s else s)
      else
        (let s1 = notifyAll (set_closed s);
             s2 = act Kill s1;
             s3 = (if \<not> from_read then act JoinReader s2 else s2);
             s4 = act WaitProc s3;
             s5 = (if debug s4
                   then (let t = print_err ''closed'' s4
                         in if from_read then print_err ''read thread closed it'' t else t)
                   else s4)
         in (Returns (), s5)))"

definition close_impl :: "bool \<Rightarrow> slicer \<Rightarrow> unit outcome \<times> slicer" where
  "close_impl from_read s =
     (let s0 = (if debug s \<and> from_read then print_err ''read thread closing it'' s else s)
      in if slicer_lock s0 then (Blocks, s0) else close_locked from_read s0)"

definition close :: "slicer \<Rightarrow> unit outcome \<times> slicer" where
  "close s = close_impl False s"

subsection \<open>\<open>process_line\<close> and \<open>get_line\<close>\<close>

definition process_line :: "string \<Rightarrow> error + (string \<times> string option)" where
  "process_line line =
     (let split = py_split1 [SP] line;
          command = split ! 0
      in if length split > 1
         then (case a2b_base64 (split ! 1) of
                 Inl e \<Rightarrow> Inl e
               | Inr rest \<Rightarrow> Inr (command, Some rest))
         else Inr (command, None))"

text \<open>One pass through the loop of \<open>get_line\<close>. A thread woken from \<open>wait()\<close> is back
  at the loop's test, so resuming a parked call is calling \<open>get_line\<close> again.\<close>

definition get_line :: "slicer \<Rightarrow> (string \<times> string option) outcome \<times> slicer" where
  "get_line s =
     (case lines s of
        [] \<Rightarrow>
          (if closed s then (Raises (Exception (Some ''queued connection closed'')), s)
           else (Waits, s\<lparr>waiting := waiting s + 1\<rparr>))
      | line # rest \<Rightarrow>
          (case process_line line of
             Inl e \<Rightarrow> (Raises e, s\<lparr>lines := rest\<rparr>)
           | Inr r \<Rightarrow> (Returns r, s\<lparr>lines := rest\<rparr>)))"

subsection \<open>Response handlers\<close>

text \<open>\<open>"bad command recieved %s %s" % (cmd, data)\<close>; \<open>%s\<close> prints \<open>None\<close> as "None".\<close>

definition bad_command :: "string \<Rightarrow> string option \<Rightarrow> string" where
  "bad_command cmd data =
     ''bad command recieved '' @ cmd @ '' '' @ (case data of None \<Rightarrow> ''None'' | Some d \<Rightarrow> d)"

definition generic_response :: "slicer \<Rightarrow> bool outcome \<times> slicer" where
  "generic_response s =
     (case get_line s of
        (Returns (cmd, data), s') \<Rightarrow>
          (if cmd = ''ERROR'' then (Raises (Exception data), s')
           else if cmd \<noteq> ''OK'' then (Raises (Exception (Some (bad_command cmd data))), s')
           else (Returns True, s'))
      | (Raises e, s') \<Rightarrow> (Raises e, s')
      | (Waits, s') \<Rightarrow> (Waits, s')
      | (Blocks, s') \<Rightarrow> (Blocks, s'))"

record candidate =
  label :: string
  count :: int

text \<open>The two comprehensions of \<open>candidates_response\<close>: the rows kept, each split once,
  and the records made from them; \<open>int\<close> raises ValueError at the first row whose
  count is not an integer.\<close>

definition candidate_rows :: "string \<Rightarrow> string list list" where
  "candidate_rows data =
     map (py_split1 '', '')
       (filter (\<lambda>line. line \<noteq> [] \<and> py_in '', '' line) (py_split [NL] (py_strip data)))"

fun candidate_records :: "string list list \<Rightarrow> error + candidate list" where
  "candidate_records [] = Inr []"
| "candidate_records (row # rows) =
     (case py_int (row ! 0) of
        None \<Rightarrow> Inl ValueError
      | Some n \<Rightarrow>
          (case candidate_records rows of
             Inl e \<Rightarrow> Inl e
           | Inr rs \<Rightarrow> Inr (\<lparr>label = row ! 1, count = n\<rparr> # rs)))"

definition parse_candidates :: "string \<Rightarrow> error + candidate list" where
  "parse_candidates data = candidate_records (candidate_rows data)"

text \<open>A response without a payload gives \<open>data = None\<close>, and \<open>None.strip()\<close> is an
  AttributeError.\<close>

definition candidates_response :: "slicer \<Rightarrow> candidate list outcome \<times> slicer" where
  "candidates_response s =
     (case get_line s of
        (Returns (cmd, data), s') \<Rightarrow>
          (if cmd = ''ERROR'' then (Raises (Exception data), s')
           else if cmd \<noteq> ''CANDIDATES''
           then (Raises (Exception (Some (bad_command cmd data))), s')
           else (case data of
                   None \<Rightarrow> (Raises AttributeError, s')
                 | Some d \<Rightarrow>
                     (case parse_candidates d of
                        Inl e \<Rightarrow> (Raises e, s')
                      | Inr rs \<Rightarrow> (Returns rs, s'))))
      | (Raises e, s') \<Rightarrow> (Raises e, s')
      | (Waits, s') \<Rightarrow> (Waits, s')
      | (Blocks, s') \<Rightarrow> (Blocks, s'))"

subsection \<open>\<open>command\<close>\<close>

text \<open>The rest of \<open>command\<close> once the message is written: the handler runs under
  \<open>slicer_lock\<close>, and the lock is released when it returns or raises. A handler parked
  in \<open>get_line\<close> keeps the lock; \<open>finish_command\<close> is also how the parked call goes on
  when it is woken.\<close>

definition finish_command ::
  "(slicer \<Rightarrow> 'a outcome \<times> slicer) \<Rightarrow> slicer \<Rightarrow> 'a outcome \<times> slicer" where
  "finish_command response s =
     (case response s of
        (Waits, s') \<Rightarrow> (Waits, s')
      | (r, s') \<Rightarrow> (r, s'\<lparr>slicer_lock := False\<rparr>))"

definition command_msg :: "string \<Rightarrow> string \<Rightarrow> string" where
  "command_msg cmd data = cmd @ '' '' @ py_remove NL (encodestring data) @ [NL]"

definition command ::
  "string \<Rightarrow> string \<Rightarrow> (slicer \<Rightarrow> 'a outcome \<times> slicer) \<Rightarrow> slicer \<Rightarrow> 'a outcome \<times> slicer" where
  "command cmd data response s =
     (if slicer_lock s then (Blocks, s)
      else finish_command response
             (act (StdinWrite (command_msg cmd data)) (s\<lparr>slicer_lock := True\<rparr>)))"

definition load :: "string \<Rightarrow> slicer \<Rightarrow> bool outcome \<times> slicer" where
  "load path s = command ''LOAD'' path generic_response s"

definition candidates :: "string \<Rightarrow> slicer \<Rightarrow> candidate list outcome \<times> slicer" where
  "candidates prefix s = command ''CANDIDATES'' prefix candidates_response s"

text \<open>
  \<open>command\<close> above is the call on a subprocess that takes the write. Once
  \<open>self.p.wait()\<close> has returned the subprocess is gone and nothing reads its end of the
  pipe: \<open>self.p.stdin.write(msg)\<close> (the pipe is unbuffered) raises IOError with errno
  EPIPE, here \<open>BrokenPipe\<close>, the \<open>with\<close> block releases \<open>slicer_lock\<close>, and
  \<open>response()\<close> is never called. \<open>command_io\<close> is \<open>command\<close> with this outcome of the
  write; the two agree for as long as the subprocess has not been reaped.
\<close>

definition reaped :: "slicer \<Rightarrow> bool" where
  "reaped s = (WaitProc \<in> set (trace s))"

definition stdin_write :: "string \<Rightarrow> slicer \<Rightarrow> unit outcome \<times> slicer" where
  "stdin_write msg s =
     (if reaped s then (Raises BrokenPipe, s) else (Returns (), act (StdinWrite msg) s))"

definition command_io ::
  "string \<Rightarrow> string \<Rightarrow> (slicer \<Rightarrow> 'a outcome \<times> slicer) \<Rightarrow> slicer \<Rightarrow> 'a outcome \<times> slicer" where
  "command_io cmd data response s =
     (if slicer_lock s then (Blocks, s)
      else case stdin_write (command_msg cmd data) (s\<lparr>slicer_lock := True\<rparr>) of
             (Returns u, s') \<Rightarrow> finish_command response s'
           | (Raises e, s') \<Rightarrow> (Raises e, s'\<lparr>slicer_lock := False\<rparr>)
           | (Waits, s') \<Rightarrow> (Waits, s')
           | (Blocks, s') \<Rightarrow> (Blocks, s'))"

subsection \<open>\<open>listen\<close>\<close>

text \<open>What \<open>os.read\<close> gives the reader: data (empty at end of file) or an exception,
  with the text printed for it.\<close>

datatype read_result = Data string | ReadError string

text \<open>Where the reader thread stands when it cannot go on: in \<open>os.read\<close> with its
  buffer, in \<open>_close(True)\<close> waiting for \<open>slicer_lock\<close>, or returned.\<close>

datatype reader_status = Reading string | Closing | Exited

definition close_from_reader :: "slicer \<Rightarrow> reader_status \<times> slicer" where
  "close_from_reader s =
     (case close_impl True s of
        (Blocks, s') \<Rightarrow> (Closing, s')
      | (r, s') \<Rightarrow> (Exited, s'))"

definition append_line :: "string \<Rightarrow> slicer \<Rightarrow> slicer" where
  "append_line line s = notify (s\<lparr>lines := lines s @ [line]\<rparr>)"

lemma py_split1_shorter:
  assumes "py_in sep chunk" and "sep \<noteq> []"
  shows "length (py_split1 sep chunk ! Suc 0) < length chunk"
proof -
  from assms(1) obtain i where i: "py_find sep chunk = Some i"
    by (auto simp: py_in_def)
  from py_find_length [OF i] assms(2) have "0 < length chunk" "0 < i + length sep"
    by (cases chunk; simp)+
  with i show ?thesis by (simp add: py_split1_def)
qed

text \<open>The two loops of \<open>listen\<close>, over the results of the successive \<open>os.read\<close> calls;
  with none left the thread is inside \<open>os.read\<close>.\<close>

function listen_loop :: "string \<Rightarrow> read_result list \<Rightarrow> slicer \<Rightarrow> reader_status \<times> slicer" where
  "listen_loop chunk rs s =
     (if \<not> py_in [NL] chunk
      then (case rs of
              [] \<Rightarrow> (Reading chunk, s)
            | Data d # rs' \<Rightarrow>
                (if d = [] then close_from_reader s else listen_loop (chunk @ d) rs' s)
            | ReadError e # rs' \<Rightarrow> close_from_reader (print_err e s))
      else (let parts = py_split1 [NL] chunk
            in listen_loop (parts ! 1) rs (append_line (parts ! 0) s)))"
  by pat_completeness auto
termination listen_loop
  by (relation "measures [\<lambda>(chunk, rs, s). length rs, \<lambda>(chunk, rs, s). length chunk]")
     (auto simp: py_split1_shorter)

declare listen_loop.simps [simp del]

definition listen :: "read_result list \<Rightarrow> slicer \<Rightarrow> reader_status \<times> slicer" where
  "listen rs s = listen_loop [] rs s"

subsection \<open>The caller and the reader, interleaved\<close>

text \<open>
  Two threads share the object: a caller running \<open>load(path)\<close> and the reader running
  \<open>listen\<close> over what the subprocess will write (\<open>stdout\<close>). Each step runs one
  thread up to the next point where it can block; \<open>None\<close> means the thread cannot move
  in this state. A parked caller moves again only after a \<open>notify\<close> took it off the
  waiting count; a reader in \<open>_close(True)\<close> moves once \<open>slicer_lock\<close> is free.
\<close>

datatype caller_status = Ready | Parked | Finished "bool outcome"

record system =
  obj :: slicer
  caller :: caller_status
  reader :: reader_status
  stdout :: "read_result list"

definition caller_moves :: "bool outcome \<times> slicer \<Rightarrow> system \<Rightarrow> system option" where
  "caller_moves r sys =
     (case r of
        (Blocks, s') \<Rightarrow> None
      | (Waits, s') \<Rightarrow> Some (sys\<lparr>obj := s', caller := Parked\<rparr>)
      | (res, s') \<Rightarrow> Some (sys\<lparr>obj := s', caller := Finished res\<rparr>))"

definition caller_step :: "string \<Rightarrow> system \<Rightarrow> system option" where
  "caller_step path sys =
     (case caller sys of
        Ready \<Rightarrow> caller_moves (load path (obj sys)) sys
      | Parked \<Rightarrow>
          (if waiting (obj sys) > 0 then None
           else caller_moves (finish_command generic_response (obj sys)) sys)
      | Finished r \<Rightarrow> None)"

definition reader_step :: "system \<Rightarrow> system option" where
  "reader_step sys =
     (case reader sys of
        Reading chunk \<Rightarrow>
          (case stdout sys of
             [] \<Rightarrow> None
           | r # rs \<Rightarrow>
               (let res = listen_loop chunk [r] (obj sys)
                in Some (sys\<lparr>obj := snd res, reader := fst res, stdout := rs\<rparr>)))
      | Closing \<Rightarrow>
          (if slicer_lock (obj sys) then None
           else Some (sys\<lparr>obj := snd (close_locked True (obj sys)), reader := Exited\<rparr>))
      | Exited \<Rightarrow> None)"

definition sys_step :: "string \<Rightarrow> system \<Rightarrow> system \<Rightarrow> bool" where
  "sys_step path a b = (caller_step path a = Some b \<or> reader_step a = Some b)"

text \<open>A fresh object with its two threads, and the states in which the caller is parked
  in \<open>get_line\<close> under \<open>slicer_lock\<close>, not notified, the connection open, and the
  reader either about to read end of file into a buffer without a newline or already
  inside \<open>_close(True)\<close>.\<close>

definition fresh_system :: "read_result list \<Rightarrow> system" where
  "fresh_system out = \<lparr>obj = init False, caller = Ready, reader = Reading [], stdout = out\<rparr>"

definition parked_at_eof :: "system \<Rightarrow> bool" where
  "parked_at_eof sys =
     (caller sys = Parked \<and> slicer_lock (obj sys) \<and> 0 < waiting (obj sys)
      \<and> \<not> closed (obj sys)
      \<and> (case reader sys of
            Reading chunk \<Rightarrow> NL \<notin> set chunk \<and> stdout sys \<noteq> [] \<and> hd (stdout sys) = Data []
          | Closing \<Rightarrow> True
          | Exited \<Rightarrow> False))"


subsection \<open>Calls in sequence\<close>

text \<open>
  The calls that touch the object, run one after the other, each up to the point where
  it returns, raises or blocks: \<open>close()\<close>, \<open>_close(True)\<close>, \<open>load\<close>, \<open>candidates\<close>, and
  the reader's loop over some reads. \<open>reaped_once\<close> says that the trace holds one
  \<open>kill\<close> and one \<open>wait\<close> when the connection is closed and none before, and at most
  one \<open>join\<close>.
\<close>

datatype call =
    CallClose
  | CallReaderClose
  | CallLoad string
  | CallCandidates string
  | CallListen "read_result list"

fun run_call :: "call \<Rightarrow> slicer \<Rightarrow> slicer" where
  "run_call CallClose s = snd (close s)"
| "run_call CallReaderClose s = snd (close_impl True s)"
| "run_call (CallLoad path) s = snd (load path s)"
| "run_call (CallCandidates prefix) s = snd (candidates prefix s)"
| "run_call (CallListen rs) s = snd (listen rs s)"

definition run_calls :: "call list \<Rightarrow> slicer \<Rightarrow> slicer" where
  "run_calls cs s = fold run_call cs s"

definition reaped_once :: "slicer \<Rightarrow> bool" where
  "reaped_once s =
     (count_list (trace s) Kill = (if closed s then 1 else 0)
      \<and> count_list (trace s) WaitProc = (if closed s then 1 else 0)
      \<and> count_list (trace s) JoinReader \<le> (if closed s then 1 else 0))"


section \<open>Framing, as the specification words it\<close>

text \<open>
  The lines of a stream are the pieces that end in a newline; what follows the last
  newline is the remainder the reader still holds. \<open>append_lines\<close> is the queue after
  the reader has appended the given lines one by one.
\<close>

definition complete_lines :: "string \<Rightarrow> string list" where
  "complete_lines t = butlast (py_split [NL] t)"

definition remainder :: "string \<Rightarrow> string" where
  "remainder t = last (py_split [NL] t)"

definition append_lines :: "string list \<Rightarrow> slicer \<Rightarrow> slicer" where
  "append_lines ls s = fold append_line ls s"


text \<open>
  Candidate rows: \<open>first_cut sep row before after\<close> says that \<open>before\<close> and \<open>after\<close>
  are the texts around the first occurrence of \<open>sep\<close> in \<open>row\<close>; \<open>delimited_rows\<close>
  are the rows of the payload, stripped as a whole, that contain the delimiter.
\<close>

definition first_cut :: "string \<Rightarrow> string \<Rightarrow> string \<Rightarrow> string \<Rightarrow> bool" where
  "first_cut sep row before after =
     (row = before @ sep @ after
      \<and> (\<forall>b a. row = b @ sep @ a \<longrightarrow> length before \<le> length b))"

definition delimited_rows :: "string \<Rightarrow> string list" where
  "delimited_rows payload = filter (py_in '', '') (py_split [NL] (py_strip payload))"


section \<open>Facts about the string model\<close>

lemma py_find_char:
  "py_find [c] s = (if c \<in> set s then Some (length (takeWhile (\<lambda>x. x \<noteq> c) s)) else None)"
  by (induction s) auto

lemma py_in_char: "py_in [c] s = (c \<in> set s)"
  by (simp add: py_in_def py_find_char)

lemma py_split_char_Nil: "py_split [c] [] = [[]]"
  by (simp add: py_split.simps)

lemma py_split_nonempty: "py_split sep s \<noteq> []"
  by (subst py_split.simps) (simp split: option.splits)

lemma py_split_char_Cons:
  "py_split [c] (x # xs) =
     (if x = c then [] # py_split [c] xs
      else (x # hd (py_split [c] xs)) # tl (py_split [c] xs))"
proof (cases "x = c")
  case True
  then show ?thesis by (subst py_split.simps) simp
next
  case False
  show ?thesis
  proof (cases "c \<in> set xs")
    case True
    with False show ?thesis
      by (subst py_split.simps, subst (2 3) py_split.simps) (simp add: py_find_char)
  next
    case False
    with \<open>x \<noteq> c\<close> show ?thesis
      by (subst py_split.simps, subst (2 3) py_split.simps) (simp add: py_find_char)
  qed
qed

lemma py_split_append:
  "py_split [c] (t @ u) = butlast (py_split [c] t) @ py_split [c] (last (py_split [c] t) @ u)"
proof (induction t)
  case Nil
  then show ?case by (simp add: py_split_char_Nil)
next
  case (Cons x xs)
  obtain l ls where sp: "py_split [c] xs = l # ls"
    using py_split_nonempty [of "[c]" xs] by (cases "py_split [c] xs") auto
  obtain l' ls' where sp': "py_split [c] (last (l # ls) @ u) = l' # ls'"
    using py_split_nonempty [of "[c]" "last (l # ls) @ u"] by (cases "py_split [c] (last (l # ls) @ u)") auto
  show ?case
    using Cons sp sp' by (auto simp add: py_split_char_Cons)
qed

lemma join_split: "concat (map (\<lambda>l. l @ [c]) (butlast (py_split [c] t))) @ last (py_split [c] t) = t"
proof (induction t)
  case Nil
  then show ?case by (simp add: py_split_char_Nil)
next
  case (Cons x xs)
  obtain l ls where sp: "py_split [c] xs = l # ls"
    using py_split_nonempty [of "[c]" xs] by (cases "py_split [c] xs") auto
  show ?case using Cons sp by (auto simp add: py_split_char_Cons)
qed

lemma split_pieces_free: "\<forall>l \<in> set (py_split [c] t). c \<notin> set l"
proof (induction t)
  case Nil
  then show ?case by (simp add: py_split_char_Nil)
next
  case (Cons x xs)
  obtain l ls where sp: "py_split [c] xs = l # ls"
    using py_split_nonempty [of "[c]" xs] by (cases "py_split [c] xs") auto
  show ?case using Cons sp by (auto simp add: py_split_char_Cons)
qed

lemma remainder_free: "NL \<notin> set (remainder t)"
  using split_pieces_free [of NL t] py_split_nonempty [of "[NL]" t]
  by (simp add: remainder_def)

lemma py_split_free: "c \<notin> set t \<Longrightarrow> py_split [c] t = [t]"
  by (subst py_split.simps) (simp add: py_find_char)

lemma py_split_found:
  "c \<in> set t \<Longrightarrow> py_split [c] t = py_split1 [c] t ! 0 # py_split [c] (py_split1 [c] t ! 1)"
  by (subst py_split.simps) (simp add: py_find_char py_split1_def)


section \<open>Base64: decoding what was encoded\<close>

lemma regroup4: "(x::nat) div 4 * 64 + (x mod 4 * 16 + t) = x * 16 + t"
  using div_mult_mod_eq [of x 4] by linarith

lemma regroup16: "(y::nat) div 16 * 64 + (y mod 16 * 4 + t) = y * 4 + t"
  using div_mult_mod_eq [of y 16] by linarith

lemma div_lt: "(y::nat) < 256 \<Longrightarrow> y div 16 < 16" "(z::nat) < 256 \<Longrightarrow> z div 64 < 4"
  by (simp_all add: less_mult_imp_div_less)

lemma arith1: "x < 256 \<Longrightarrow> y < 256 \<Longrightarrow> ((x div 4) * 64 + ((x mod 4) * 16 + y div 16)) div 16 mod 256 = (x::nat)"
  using div_lt(1) [of y] by (simp add: regroup4)
lemma arith2: "y < 256 \<Longrightarrow> ((x div 4) * 64 + ((x mod 4) * 16 + y div 16)) mod 16 = (y::nat) div 16"
  using div_lt(1) [of y] by (simp add: regroup4)
lemma arith3: "y < 256 \<Longrightarrow> z < 256 \<Longrightarrow> ((y div 16) * 64 + ((y mod 16) * 4 + z div 64)) div 4 mod 256 = (y::nat)"
  using div_lt(2) [of z] by (simp add: regroup16)
lemma arith4: "z < 256 \<Longrightarrow> ((y div 16) * 64 + ((y mod 16) * 4 + z div 64)) mod 4 = (z::nat) div 64"
  using div_lt(2) [of z] by (simp add: regroup16)
lemma arith6: "x < 256 \<Longrightarrow> ((x div 4) * 64 + (x mod 4) * 16) div 16 mod 256 = (x::nat)"
  using regroup4 [of x 0] by simp
lemma arith7: "y < 256 \<Longrightarrow> ((y div 16) * 64 + (y mod 16) * 4) div 4 mod 256 = (y::nat)"
  using regroup16 [of y 0] by simp
lemma sixbit: "(x::nat) < 256 \<Longrightarrow> x div 4 < 64" "y < 256 \<Longrightarrow> (x::nat) mod 4 * 16 + y div 16 < 64"
  "z < 256 \<Longrightarrow> (y::nat) mod 16 * 4 + z div 64 < 64" "(z::nat) mod 64 < 64" "(x::nat) mod 4 * 16 < 64" "(y::nat) mod 16 * 4 < 64"
proof -
  show "x < 256 \<Longrightarrow> x div 4 < 64" by (simp add: less_mult_imp_div_less)
  have a: "x mod 4 < 4" "y mod 16 < 16" by simp_all
  show "y < 256 \<Longrightarrow> x mod 4 * 16 + y div 16 < 64" using a(1) div_lt(1) [of y] by linarith
  show "z < 256 \<Longrightarrow> y mod 16 * 4 + z div 64 < 64" using a(2) div_lt(2) [of z] by linarith
  show "z mod 64 < 64" by simp
  show "x mod 4 * 16 < 64" using a(1) by linarith
  show "y mod 16 * 4 < 64" using a(2) by linarith
qed

lemma alphabet_codes: "map of_char b64_alphabet = map b2a_code [0..<64]"
  unfolding b64_alphabet_def by (simp add: b2a_code_def upt_rec)

lemma of_char_b2a_char:
  assumes "v < 64"
  shows "(of_char (b2a_char v) :: nat) = b2a_code v"
proof -
  have len: "length b64_alphabet = 64"
    by (simp add: b64_alphabet_def)
  have "map of_char b64_alphabet ! v = map b2a_code [0..<64] ! v"
    by (simp only: alphabet_codes)
  with assms len show ?thesis
    by (simp add: b2a_char_def)
qed

lemma b2a_char_props:
  assumes "v < 64"
  shows "(of_char (b2a_char v) :: nat) \<le> 127 \<and> b2a_char v \<noteq> CHR 0x0D \<and> b2a_char v \<noteq> NL
     \<and> b2a_char v \<noteq> SP \<and> b2a_char v \<noteq> PAD \<and> a2b_val (b2a_char v) = Some v"
proof -
  note c = of_char_b2a_char [OF assms]
  have 1: "(of_char (b2a_char v) :: nat) \<le> 127"
    using assms by (auto simp add: c b2a_code_def)
  have ne: "(of_char (b2a_char v) :: nat) \<noteq> of_char d \<Longrightarrow> b2a_char v \<noteq> d" for d
    by auto
  have 2: "b2a_char v \<noteq> CHR 0x0D" "b2a_char v \<noteq> NL" "b2a_char v \<noteq> SP" "b2a_char v \<noteq> PAD"
    using assms by (auto intro!: ne simp add: c b2a_code_def split: if_splits)
  have 3: "a2b_val (b2a_char v) = Some v"
    using assms by (auto simp add: a2b_val_def c b2a_code_def Let_def)
  from 1 2 3 show ?thesis by simp
qed

lemma a2b_loop_data:
  assumes "v < 64"
  shows "a2b_loop q lb lc (b2a_char v # cs) =
     (if lb + 6 \<ge> 8
      then (let r = a2b_loop ((q + 1) mod 4) (lb + 6 - 8) ((lc * 64 + v) mod 2 ^ (lb + 6 - 8)) cs
            in (fst r, char_of (((lc * 64 + v) div 2 ^ (lb + 6 - 8)) mod 256) # snd r))
      else a2b_loop ((q + 1) mod 4) (lb + 6) (lc * 64 + v) cs)"
  using b2a_char_props [OF assms] by (simp add: Let_def)

lemma a2b_loop_pad3: "a2b_loop 3 lb lc (PAD # cs) = (0, [])"
  by simp

lemma a2b_loop_pad2: "a2b_loop (Suc (Suc 0)) lb lc (PAD # PAD # cs) = (0, [])"
  by simp

lemma a2b_loop_quad:
  assumes "x < 256" "y < 256" "z < 256"
  shows "a2b_loop 0 0 0 (b2a_char (x div 4) # b2a_char ((x mod 4) * 16 + y div 16) #
       b2a_char ((y mod 16) * 4 + z div 64) # b2a_char (z mod 64) # cs) =
     (fst (a2b_loop 0 0 0 cs), char_of x # char_of y # char_of z # snd (a2b_loop 0 0 0 cs))"
proof -
  have v: "x div 4 < 64" "(x mod 4) * 16 + y div 16 < 64" "(y mod 16) * 4 + z div 64 < 64" "z mod 64 < 64"
    using assms sixbit by auto
  show ?thesis
    using assms
    by (simp add: a2b_loop_data [OF v(1)] a2b_loop_data [OF v(2)] a2b_loop_data [OF v(3)]
        a2b_loop_data [OF v(4)] Let_def arith1 arith2 arith3 arith4 del: a2b_loop.simps)
qed

lemma a2b_loop_one:
  assumes "x < 256"
  shows "a2b_loop 0 0 0 [b2a_char (x div 4), b2a_char ((x mod 4) * 16), PAD, PAD] = (0, [char_of x])"
proof -
  have v: "x div 4 < 64" "(x mod 4) * 16 < 64"
    using assms sixbit by auto
  show ?thesis
    using assms
    by (simp add: a2b_loop_data [OF v(1)] a2b_loop_data [OF v(2)] Let_def arith6 a2b_loop_pad2
         del: a2b_loop.simps)
qed

lemma a2b_loop_two:
  assumes "x < 256" "y < 256"
  shows "a2b_loop 0 0 0 [b2a_char (x div 4), b2a_char ((x mod 4) * 16 + y div 16),
      b2a_char ((y mod 16) * 4), PAD] = (0, [char_of x, char_of y])"
proof -
  have v: "x div 4 < 64" "(x mod 4) * 16 + y div 16 < 64" "(y mod 16) * 4 < 64"
    using assms sixbit by auto
  show ?thesis
    using assms arith7 [of y] regroup16 [of y 0]
    by (simp add: a2b_loop_data [OF v(1)] a2b_loop_data [OF v(2)] a2b_loop_data [OF v(3)]
       Let_def arith1 arith2 a2b_loop_pad3 del: a2b_loop.simps)
qed

lemma a2b_loop_b2a_groups: "a2b_loop 0 0 0 (b2a_groups s) = (0, s)"
proof (induction s rule: b2a_groups.induct)
  case 1
  then show ?case by simp
next
  case (2 a)
  then show ?case using a2b_loop_one [of "of_char a"] by (simp add: Let_def del: a2b_loop.simps)
next
  case (3 a b)
  then show ?case using a2b_loop_two [of "of_char a" "of_char b"] by (simp add: Let_def del: a2b_loop.simps)
next
  case (4 a b c rest)
  then show ?case using a2b_loop_quad [of "of_char a" "of_char b" "of_char c" "b2a_groups rest"]
    by (simp add: Let_def del: a2b_loop.simps)
qed

lemma b2a_char_not_NL: "v < 64 \<Longrightarrow> NL \<noteq> b2a_char v"
  using b2a_char_props [of v] by auto

lemma b2a_groups_no_NL: "NL \<notin> set (b2a_groups s)"
  by (induction s rule: b2a_groups.induct) (simp_all add: Let_def b2a_char_not_NL sixbit)

lemma b2a_groups_append:
  "length xs mod 3 = 0 \<Longrightarrow> b2a_groups (xs @ ys) = b2a_groups xs @ b2a_groups ys"
  by (induction xs rule: b2a_groups.induct) (simp_all add: Let_def)

lemma py_remove_encodestring: "py_remove NL (encodestring s) = b2a_groups s"
proof (induction s rule: encodestring.induct)
  case (1 s)
  show ?case
  proof (cases "s = []")
    case True
    then show ?thesis by (subst encodestring.simps) (simp add: py_remove_def)
  next
    case False
    have free: "filter (\<lambda>x. x \<noteq> NL) (b2a_groups t) = b2a_groups t" for t
      using b2a_groups_no_NL [of t] by (auto simp add: filter_id_conv)
    have "py_remove NL (encodestring s) =
          b2a_groups (take 57 s) @ py_remove NL (encodestring (drop 57 s))"
      using False by (subst encodestring.simps) (simp add: py_remove_def b2a_base64_def free)
    also have "\<dots> = b2a_groups (take 57 s) @ b2a_groups (drop 57 s)"
      using "1.IH" [OF False] by simp
    also have "\<dots> = b2a_groups s"
    proof (cases "57 \<le> length s")
      case True
      then have "length (take 57 s) mod 3 = 0" by simp
      from b2a_groups_append [OF this, of "drop 57 s"] show ?thesis by simp
    next
      case False
      then show ?thesis by simp
    qed
    finally show ?thesis .
  qed
qed

lemma a2b_base64_encoded: "a2b_base64 (py_remove NL (encodestring data)) = Inr data"
  by (simp add: a2b_base64_def py_remove_encodestring a2b_loop_b2a_groups)

lemma py_find_prefix_free:
  "SP \<notin> set verb \<Longrightarrow> py_find [SP] (verb @ SP # rest) = Some (length verb)"
  by (induction verb) auto

lemma process_line_payload:
  assumes "SP \<notin> set verb"
  shows "process_line (verb @ SP # enc) =
         (case a2b_base64 enc of Inl e \<Rightarrow> Inl e | Inr d \<Rightarrow> Inr (verb, Some d))"
  using py_find_prefix_free [OF assms, of enc]
  by (simp add: process_line_def py_split1_def)

lemma process_line_bare:
  assumes "SP \<notin> set verb"
  shows "process_line verb = Inr (verb, None)"
  using assms by (simp add: process_line_def py_split1_def py_find_char)

section \<open>The framing loop\<close>

lemma listen_loop_frames:
  "listen_loop chunk rs s = listen_loop (remainder chunk) rs (append_lines (complete_lines chunk) s)"
proof (induction chunk rs s rule: listen_loop.induct)
  case (1 chunk rs s)
  show ?case
  proof (cases "NL \<in> set chunk")
    case False
    then show ?thesis
      by (simp add: remainder_def complete_lines_def append_lines_def py_split_free)
  next
    case True
    let ?parts = "py_split1 [NL] chunk"
    have "listen_loop chunk rs s = listen_loop (?parts ! 1) rs (append_line (?parts ! 0) s)"
      using True by (subst listen_loop.simps) (simp add: py_in_char Let_def)
    also have "\<dots> = listen_loop (remainder (?parts ! 1)) rs
        (append_lines (complete_lines (?parts ! 1)) (append_line (?parts ! 0) s))"
      using True "1.IH"(2) [OF _ refl] by (simp add: py_in_char)
    also have "\<dots> = listen_loop (remainder chunk) rs (append_lines (complete_lines chunk) s)"
      using True py_split_nonempty [of "[NL]" "?parts ! 1"]
      by (simp add: remainder_def complete_lines_def append_lines_def py_split_found)
    finally show ?thesis .
  qed
qed

lemma listen_loop_no_NL:
  assumes "NL \<notin> set chunk"
  shows "listen_loop chunk [] s = (Reading chunk, s)"
    and "d \<noteq> [] \<Longrightarrow> listen_loop chunk (Data d # rs) s = listen_loop (chunk @ d) rs s"
    and "listen_loop chunk (Data [] # rs) s = close_from_reader s"
    and "listen_loop chunk (ReadError e # rs) s = close_from_reader (print_err e s)"
  using assms by (subst listen_loop.simps; simp add: py_in_char)+

lemma append_lines_append: "append_lines (xs @ ys) s = append_lines ys (append_lines xs s)"
  by (simp add: append_lines_def)

lemma complete_lines_append:
  "complete_lines (t @ u) = complete_lines t @ complete_lines (remainder t @ u)"
  using py_split_nonempty [of "[NL]" "remainder t @ u"]
  by (simp add: complete_lines_def remainder_def py_split_append [of NL t u] butlast_append)

lemma remainder_append: "remainder (t @ u) = remainder (remainder t @ u)"
  using py_split_nonempty [of "[NL]" "remainder t @ u"]
  by (simp add: complete_lines_def remainder_def py_split_append [of NL t u])

lemma listen_loop_chunks:
  assumes "\<forall>c \<in> set chunks. c \<noteq> []"
  shows "listen_loop buf (map Data chunks @ rs) s =
         listen_loop (remainder (buf @ concat chunks)) rs
           (append_lines (complete_lines (buf @ concat chunks)) s)"
  using assms
proof (induction chunks arbitrary: buf s)
  case Nil
  show ?case using listen_loop_frames [of buf rs s] by simp
next
  case (Cons c cs)
  have c: "c \<noteq> []" and cs: "\<forall>c \<in> set cs. c \<noteq> []"
    using Cons.prems by auto
  let ?s1 = "append_lines (complete_lines buf) s"
  have "listen_loop buf (map Data (c # cs) @ rs) s =
        listen_loop (remainder buf) (Data c # map Data cs @ rs) ?s1"
    using listen_loop_frames [of buf "map Data (c # cs) @ rs" s] by simp
  also have "\<dots> = listen_loop (remainder buf @ c) (map Data cs @ rs) ?s1"
    using listen_loop_no_NL(2) [OF remainder_free c] by simp
  also have "\<dots> = listen_loop (remainder ((remainder buf @ c) @ concat cs)) rs
      (append_lines (complete_lines ((remainder buf @ c) @ concat cs)) ?s1)"
    by (rule Cons.IH [OF cs])
  also have "\<dots> = listen_loop (remainder (buf @ concat (c # cs))) rs
      (append_lines (complete_lines (buf @ concat (c # cs))) s)"
    using complete_lines_append [of buf "c @ concat cs"] remainder_append [of buf "c @ concat cs"]
    by (simp add: append_lines_append)
  finally show ?case .
qed

section \<open>Closing leaves the queue alone\<close>

lemma lines_append_lines: "lines (append_lines ls s) = lines s @ ls"
  by (induction ls arbitrary: s) (simp_all add: append_lines_def append_line_def notify_def act_def)

lemma close_locked_lines: "lines (snd (close_locked fr s)) = lines s"
  by (simp add: close_locked_def Let_def notifyAll_def set_closed_def act_def print_err_def)

lemma close_impl_lines: "lines (snd (close_impl fr s)) = lines s"
  by (simp add: close_impl_def Let_def close_locked_lines print_err_def)

lemma close_from_reader_lines: "lines (snd (close_from_reader s)) = lines s"
  using close_impl_lines [of True s]
  by (cases "close_impl True s") (auto simp add: close_from_reader_def split: outcome.splits)

lemma close_from_reader_free:
  "\<not> slicer_lock s \<Longrightarrow> fst (close_from_reader s) = Exited \<and> closed (snd (close_from_reader s))"
  by (simp add: close_from_reader_def close_impl_def close_locked_def Let_def notifyAll_def
      set_closed_def act_def print_err_def)

lemma close_from_reader_held:
  "slicer_lock s \<Longrightarrow> fst (close_from_reader s) = Closing \<and> closed (snd (close_from_reader s)) = closed s"
  by (simp add: close_from_reader_def close_impl_def Let_def print_err_def)


section \<open>Errors of \<open>process_line\<close>; the closed queue\<close>

lemma a2b_base64_error: "a2b_base64 t = Inl e \<Longrightarrow> e = Base64Error"
  by (simp add: a2b_base64_def Let_def split: if_splits)

lemma process_line_error: "process_line line = Inl e \<Longrightarrow> e = Base64Error"
  by (auto simp add: process_line_def Let_def split: if_splits sum.splits dest: a2b_base64_error)


lemma finish_command_raises:
  "response s = (Raises e, s') \<Longrightarrow> finish_command response s = (Raises e, s'\<lparr>slicer_lock := False\<rparr>)"
  by (simp add: finish_command_def)

lemma get_line_closed:
  "closed s \<Longrightarrow> lines s = [] \<Longrightarrow>
     get_line s = (Raises (Exception (Some ''queued connection closed'')), s)"
  by (simp add: get_line_def)


section \<open>Kill, join and wait happen once\<close>

lemma reaped_once_close_locked: "reaped_once s \<Longrightarrow> reaped_once (snd (close_locked fr s))"
  by (auto simp add: reaped_once_def close_locked_def Let_def notifyAll_def set_closed_def
      act_def print_err_def split: if_splits)

lemma reaped_once_print_err: "reaped_once s \<Longrightarrow> reaped_once (print_err m s)"
  by (simp add: reaped_once_def print_err_def)

lemma reaped_once_close_impl: "reaped_once s \<Longrightarrow> reaped_once (snd (close_impl fr s))"
proof -
  assume a: "reaped_once s"
  define s0 where "s0 = (if debug s \<and> fr then print_err ''read thread closing it'' s else s)"
  have r: "reaped_once s0"
    using a by (simp add: s0_def reaped_once_print_err)
  have "snd (close_impl fr s) = (if slicer_lock s0 then s0 else snd (close_locked fr s0))"
    by (simp add: close_impl_def s0_def Let_def)
  with r reaped_once_close_locked [OF r, of fr] show ?thesis by simp
qed

lemma get_line_trace:
  "trace (snd (get_line s)) = trace s \<and> closed (snd (get_line s)) = closed s"
  by (simp add: get_line_def split: list.splits sum.splits)

lemma generic_response_trace:
  "trace (snd (generic_response s)) = trace s \<and> closed (snd (generic_response s)) = closed s"
  using get_line_trace [of s]
  by (cases "get_line s") (auto simp add: generic_response_def split: outcome.splits)

lemma candidates_response_trace:
  "trace (snd (candidates_response s)) = trace s \<and> closed (snd (candidates_response s)) = closed s"
  using get_line_trace [of s]
  by (cases "get_line s")
     (auto simp add: candidates_response_def split: outcome.splits option.splits sum.splits)

lemma finish_command_trace:
  assumes "\<And>s. trace (snd (response s)) = trace s \<and> closed (snd (response s)) = closed s"
  shows "trace (snd (finish_command response s)) = trace s
       \<and> closed (snd (finish_command response s)) = closed s"
  using assms [of s]
  by (cases "response s") (auto simp add: finish_command_def split: outcome.splits)

lemma reaped_once_command:
  assumes "\<And>s. trace (snd (response s)) = trace s \<and> closed (snd (response s)) = closed s"
    and "reaped_once s"
  shows "reaped_once (snd (command cmd data response s))"
proof (cases "slicer_lock s")
  case True
  with assms(2) show ?thesis by (simp add: command_def)
next
  case False
  let ?w = "act (StdinWrite (command_msg cmd data)) (s\<lparr>slicer_lock := True\<rparr>)"
  from finish_command_trace [of response ?w, OF assms(1)] assms(2) False
  show ?thesis by (simp add: command_def reaped_once_def act_def)
qed

lemma reaped_once_append_line: "reaped_once s \<Longrightarrow> reaped_once (append_line l s)"
  by (simp add: reaped_once_def append_line_def notify_def act_def)

lemma reaped_once_close_from_reader: "reaped_once s \<Longrightarrow> reaped_once (snd (close_from_reader s))"
  using reaped_once_close_impl [of s True]
  by (cases "close_impl True s") (auto simp add: close_from_reader_def split: outcome.splits)

lemma reaped_once_listen_loop: "reaped_once s \<Longrightarrow> reaped_once (snd (listen_loop chunk rs s))"
proof (induction chunk rs s rule: listen_loop.induct)
  case (1 chunk rs s)
  have p: "reaped_once (print_err m s)" for m
    using "1.prems" by (rule reaped_once_print_err)
  show ?case
  proof (cases "py_in [NL] chunk")
    case True
    with 1 show ?thesis
      by (subst listen_loop.simps) (simp add: Let_def reaped_once_append_line)
  next
    case False
    show ?thesis
    proof (cases rs)
      case Nil
      with False "1.prems" show ?thesis by (subst listen_loop.simps) simp
    next
      case (Cons r rs')
      show ?thesis
      proof (cases r)
        case (Data d)
        with False Cons 1 show ?thesis
          by (subst listen_loop.simps) (simp add: reaped_once_close_from_reader)
      next
        case (ReadError e)
        with False Cons p show ?thesis
          by (subst listen_loop.simps) (simp add: reaped_once_close_from_reader)
      qed
    qed
  qed
qed

lemma reaped_once_run_call: "reaped_once s \<Longrightarrow> reaped_once (run_call c s)"
  by (cases c)
     (simp_all add: close_def load_def candidates_def listen_def reaped_once_close_impl
       reaped_once_command generic_response_trace candidates_response_trace
       reaped_once_listen_loop)

lemma reaped_once_run_calls: "reaped_once s \<Longrightarrow> reaped_once (run_calls cs s)"
  unfolding run_calls_def
  by (induction cs arbitrary: s) (simp_all add: reaped_once_run_call)

lemma reaped_once_init: "reaped_once (init dbg)"
  by (simp add: reaped_once_def init_def)

section \<open>End of file while a command waits\<close>

lemma parked_caller_stuck: "parked_at_eof sys \<Longrightarrow> caller_step path sys = None"
  by (simp add: parked_at_eof_def caller_step_def)

lemma close_from_reader_locked:
  "slicer_lock s \<Longrightarrow>
     close_from_reader s =
       (Closing, if debug s then print_err ''read thread closing it'' s else s)"
  by (simp add: close_from_reader_def close_impl_def Let_def print_err_def)

lemma parked_reader_step:
  assumes "parked_at_eof sys" and "reader_step sys = Some sys'"
  shows "parked_at_eof sys' \<and> reader sys' = Closing"
proof (cases "reader sys")
  case (Reading chunk)
  with assms(1) obtain rest where st: "stdout sys = Data [] # rest" and nl: "NL \<notin> set chunk"
    and lk: "slicer_lock (obj sys)"
    by (cases "stdout sys") (auto simp add: parked_at_eof_def)
  have "listen_loop chunk [Data []] (obj sys) = close_from_reader (obj sys)"
    using listen_loop_no_NL(3) [OF nl] by simp
  with assms Reading st lk show ?thesis
    by (auto simp add: reader_step_def parked_at_eof_def close_from_reader_locked print_err_def
        split: if_splits)
next
  case Closing
  with assms show ?thesis by (simp add: reader_step_def parked_at_eof_def)
next
  case Exited
  with assms show ?thesis by (simp add: reader_step_def)
qed

lemma parked_step: "parked_at_eof sys \<Longrightarrow> sys_step path sys sys' \<Longrightarrow> parked_at_eof sys'"
  using parked_caller_stuck [of sys path] parked_reader_step [of sys sys']
  by (auto simp add: sys_step_def)

lemma parked_forever:
  "rtranclp (sys_step path) sys sys' \<Longrightarrow> parked_at_eof sys \<Longrightarrow> parked_at_eof sys'"
  by (induction rule: rtranclp_induct) (auto intro: parked_step)

lemma closing_reader_stuck:
  "parked_at_eof sys \<Longrightarrow> reader sys = Closing \<Longrightarrow> reader_step sys = None"
  by (simp add: reader_step_def parked_at_eof_def)


text \<open>The same end of file with the waiter outside \<open>command\<close>, so that nobody holds
  \<open>slicer_lock\<close>: the reader's \<open>_close(True)\<close> runs, no thread is left waiting, and the
  woken \<open>get_line\<close> raises. The lock held by \<open>command\<close> is what keeps this from
  happening for a command.\<close>

lemma bare_waiter_is_failed:
  assumes "\<not> slicer_lock s" and "\<not> closed s" and "lines s = []"
  shows "fst (get_line s) = Waits
       \<and> fst (close_from_reader (snd (get_line s))) = Exited
       \<and> waiting (snd (close_from_reader (snd (get_line s)))) = 0
       \<and> fst (get_line (snd (close_from_reader (snd (get_line s))))) =
           Raises (Exception (Some ''queued connection closed''))"
  using assms
  by (simp add: get_line_def close_from_reader_def close_impl_def close_locked_def Let_def
      notifyAll_def set_closed_def act_def print_err_def)

section \<open>Splitting at the first delimiter\<close>

lemma startswith_iff: "startswith s p = (\<exists>r. s = p @ r)"
  by (induction s p rule: startswith.induct) auto

lemma py_find_None: "py_find sep s = None \<Longrightarrow> s \<noteq> b @ sep @ a"
proof (induction s arbitrary: b)
  case Nil
  then show ?case by (auto split: if_splits)
next
  case (Cons c cs)
  from Cons.prems have ns: "\<not> startswith (c # cs) sep" and n: "py_find sep cs = None"
    by (auto split: if_splits)
  show ?case
  proof (cases b)
    case Nil
    with ns show ?thesis by (auto simp add: startswith_iff)
  next
    case (Cons x b')
    with Cons.IH [OF n, of b'] show ?thesis by auto
  qed
qed

lemma py_find_first:
  "py_find sep s = Some i \<Longrightarrow> s = b @ sep @ a \<Longrightarrow> i \<le> length b"
proof (induction s arbitrary: i b)
  case Nil
  then show ?case by (auto split: if_splits)
next
  case (Cons c cs)
  show ?case
  proof (cases "startswith (c # cs) sep")
    case True
    with Cons.prems(1) have "i = 0" by simp
    then show ?thesis by simp
  next
    case False
    with Cons.prems(1) obtain j where j: "py_find sep cs = Some j" "i = Suc j"
      by auto
    show ?thesis
    proof (cases b)
      case Nil
      with False Cons.prems(2) show ?thesis by (auto simp add: startswith_iff)
    next
      case (Cons x b')
      with Cons.prems(2) have "cs = b' @ sep @ a" by simp
      from Cons.IH [OF j(1) this] j(2) Cons show ?thesis by simp
    qed
  qed
qed

lemma py_find_cut:
  assumes "py_find sep s = Some i"
  shows "first_cut sep s (take i s) (drop (i + length sep) s)"
proof -
  from py_find_bound [OF assms] obtain r where r: "drop i s = sep @ r" and i: "i \<le> length s"
    by (auto simp add: startswith_iff)
  have "s = take i s @ drop i s" by simp
  also have "drop i s = sep @ drop (length sep) (drop i s)"
    using r by simp
  finally have eq: "s = take i s @ sep @ drop (i + length sep) s"
    by (simp add: add.commute)
  have "length (take i s) \<le> length b" if "s = b @ sep @ a" for b a
    using py_find_first [OF assms that] i by simp
  with eq show ?thesis unfolding first_cut_def by blast
qed

lemma py_in_iff: "py_in sep s = (\<exists>b a. s = b @ sep @ a)"
proof
  assume "py_in sep s"
  then obtain i where i: "py_find sep s = Some i" by (auto simp add: py_in_def)
  from py_find_cut [OF this] show "\<exists>b a. s = b @ sep @ a"
    unfolding first_cut_def by blast
next
  assume "\<exists>b a. s = b @ sep @ a"
  then show "py_in sep s"
    using py_find_None [of sep s] by (auto simp add: py_in_def)
qed

lemma candidate_rows_eq:
  "candidate_rows payload = map (py_split1 '', '') (delimited_rows payload)"
proof -
  have "(line \<noteq> [] \<and> py_in '', '' line) = py_in '', '' line" for line
    by (cases line) (auto simp add: py_in_def)
  then show ?thesis
    by (simp add: candidate_rows_def delimited_rows_def)
qed

lemma candidate_records_rows:
  assumes "\<forall>row \<in> set rows. py_in '', '' row"
  shows "case candidate_records (map (py_split1 '', '') rows) of
           Inr recs \<Rightarrow>
             list_all2 (\<lambda>row r. \<exists>c. first_cut '', '' row c (label r) \<and> py_int c = Some (count r))
               rows recs
         | Inl e \<Rightarrow>
             e = ValueError
             \<and> (\<exists>row \<in> set rows. \<exists>c l. first_cut '', '' row c l \<and> py_int c = None)"
  using assms
proof (induction rows)
  case Nil
  then show ?case by simp
next
  case (Cons row rows)
  from Cons.prems obtain i where i: "py_find '', '' row = Some i"
    by (auto simp add: py_in_def)
  note cut = py_find_cut [OF i]
  have sp: "py_split1 '', '' row = [take i row, drop (i + 2) row]"
    using i by (simp add: py_split1_def)
  from Cons have IH: "case candidate_records (map (py_split1 '', '') rows) of
           Inr recs \<Rightarrow>
             list_all2 (\<lambda>row r. \<exists>c. first_cut '', '' row c (label r) \<and> py_int c = Some (count r))
               rows recs
         | Inl e \<Rightarrow>
             e = ValueError
             \<and> (\<exists>row \<in> set rows. \<exists>c l. first_cut '', '' row c l \<and> py_int c = None)"
    by simp
  show ?case
  proof (cases "py_int (take i row)")
    case None
    with cut show ?thesis by (auto simp add: sp)
  next
    case (Some n)
    with cut IH show ?thesis
      by (cases "candidate_records (map (py_split1 '', '') rows)") (auto simp add: sp)
  qed
qed

section \<open>The integer parser; the write to a reaped subprocess\<close>

lemma py_int_sign_space: "py_int ''- 3'' = Some (- 3) \<and> py_int '' +  12 '' = Some 12
    \<and> py_int ''-'' = None \<and> py_int ''3 4'' = None \<and> py_int ''007'' = Some 7"
  by code_simp

lemma command_io_live:
  "\<not> reaped s \<Longrightarrow> command_io cmd data response s = command cmd data response s"
  by (simp add: command_io_def command_def stdin_write_def reaped_def)

lemma close_impl_reaps:
  "\<not> closed s \<Longrightarrow> \<not> slicer_lock s \<Longrightarrow>
     closed (snd (close_impl fr s)) \<and> reaped (snd (close_impl fr s))
     \<and> \<not> slicer_lock (snd (close_impl fr s))"
  by (simp add: close_impl_def close_locked_def Let_def notifyAll_def set_closed_def act_def
      print_err_def reaped_def)


section \<open>The claims\<close>

text \<open>
  C1. End of file on the subprocess's output while a command is parked in \<open>get_line\<close>:
  \<open>command\<close> holds \<open>slicer_lock\<close> across the wait, and the reader's \<open>_close(True)\<close>
  starts by acquiring that lock. So from such a state every reachable state has the
  caller still parked and the connection still open: the closed flag is never set, no
  waiter is woken, and after the reader's one step into \<open>_close(True)\<close> neither thread
  can move. The command does not fail with the closed-connection error; it hangs.
\<close>

theorem eof_while_parked_hangs:
  assumes "caller sys = Parked" and "slicer_lock (obj sys)" and "0 < waiting (obj sys)"
    and "\<not> closed (obj sys)" and "reader sys = Reading chunk" and "NL \<notin> set chunk"
    and "stdout sys = Data [] # rest"
  shows "(\<forall>sys'. rtranclp (sys_step path) sys sys' \<longrightarrow>
            caller sys' = Parked \<and> \<not> closed (obj sys'))
       \<and> caller_step path sys = None
       \<and> (\<exists>sys'. reader_step sys = Some sys' \<and> reader sys' = Closing
             \<and> caller_step path sys' = None \<and> reader_step sys' = None)"
proof -
  have p: "parked_at_eof sys"
    using assms by (simp add: parked_at_eof_def)
  have 1: "caller sys' = Parked \<and> \<not> closed (obj sys')" if "rtranclp (sys_step path) sys sys'" for sys'
    using parked_forever [OF that p] by (simp add: parked_at_eof_def)
  have 2: "caller_step path sys = None"
    by (rule parked_caller_stuck [OF p])
  obtain sys' where s: "reader_step sys = Some sys'"
    using assms by (simp add: reader_step_def Let_def)
  from parked_reader_step [OF p s] have q: "parked_at_eof sys'" "reader sys' = Closing"
    by simp_all
  have 3: "reader_step sys = Some sys' \<and> reader sys' = Closing
             \<and> caller_step path sys' = None \<and> reader_step sys' = None"
    using s q parked_caller_stuck [OF q(1)] closing_reader_stuck [OF q] by simp
  from 1 2 3 show ?thesis by blast
qed

theorem eof_while_parked_hangs_witness:
  "caller_step ''x'' (fresh_system [Data []]) =
     Some \<lparr>obj = (init False)\<lparr>slicer_lock := True, waiting := 1,
                   trace := [Popen, StartReader, StdinWrite (command_msg ''LOAD'' ''x'')]\<rparr>,
           caller = Parked, reader = Reading [], stdout = [Data []]\<rparr>
   \<and> reader_step \<lparr>obj = (init False)\<lparr>slicer_lock := True, waiting := 1,
                   trace := [Popen, StartReader, StdinWrite (command_msg ''LOAD'' ''x'')]\<rparr>,
           caller = Parked, reader = Reading [], stdout = [Data []]\<rparr> =
     Some \<lparr>obj = (init False)\<lparr>slicer_lock := True, waiting := 1,
                   trace := [Popen, StartReader, StdinWrite (command_msg ''LOAD'' ''x'')]\<rparr>,
           caller = Parked, reader = Closing, stdout = []\<rparr>
   \<and> caller_step ''x'' \<lparr>obj = (init False)\<lparr>slicer_lock := True, waiting := 1,
                   trace := [Popen, StartReader, StdinWrite (command_msg ''LOAD'' ''x'')]\<rparr>,
           caller = Parked, reader = Closing, stdout = []\<rparr> = None
   \<and> reader_step \<lparr>obj = (init False)\<lparr>slicer_lock := True, waiting := 1,
                   trace := [Popen, StartReader, StdinWrite (command_msg ''LOAD'' ''x'')]\<rparr>,
           caller = Parked, reader = Closing, stdout = []\<rparr> = None"
proof -
  let ?o = "(init False)\<lparr>slicer_lock := True, waiting := 1,
                   trace := [Popen, StartReader, StdinWrite (command_msg ''LOAD'' ''x'')]\<rparr>"
  let ?A = "\<lparr>obj = ?o, caller = Parked, reader = Reading [], stdout = [Data []]\<rparr>"
  let ?B = "\<lparr>obj = ?o, caller = Parked, reader = Closing, stdout = []\<rparr>"
  have 1: "caller_step ''x'' (fresh_system [Data []]) = Some ?A"
    by (simp add: fresh_system_def caller_step_def caller_moves_def load_def command_def
        finish_command_def generic_response_def get_line_def act_def init_def)
  have 2: "reader_step ?A = Some ?B"
    using listen_loop_no_NL(3) [of "[]" "[]" ?o]
    by (simp add: reader_step_def close_from_reader_locked init_def)
  note t = eof_while_parked_hangs [of ?A "[]" "[]" "''x''"]
  have h: "caller ?A = Parked" "slicer_lock (obj ?A)" "0 < waiting (obj ?A)" "\<not> closed (obj ?A)"
    "reader ?A = Reading []" "NL \<notin> set []" "stdout ?A = Data [] # []"
    by (simp_all add: init_def)
  from t [OF h] 2 have 3: "caller_step ''x'' ?B = None \<and> reader_step ?B = None"
    by auto
  from 1 2 3 show ?thesis by blast
qed

text \<open>
  C2. For every argument string (a byte string: newlines, spaces and control bytes
  included), the payload that \<open>command\<close> writes, the base64 text of the argument with
  the embedded newlines removed, decodes to the argument exactly; and \<open>process_line\<close>
  on the line written (verb, space, payload) gives back the verb and the argument,
  the verb being free of spaces.
\<close>

theorem encode_decode_roundtrip:
  "a2b_base64 (py_remove NL (encodestring data)) = Inr data
   \<and> (SP \<notin> set verb \<longrightarrow>
        process_line (butlast (command_msg verb data)) = Inr (verb, Some data))"
proof -
  have "butlast (command_msg verb data) = verb @ SP # py_remove NL (encodestring data)"
    by (simp add: command_msg_def butlast_append)
  then have "process_line (butlast (command_msg verb data)) = Inr (verb, Some data)"
    if "SP \<notin> set verb"
    using process_line_payload [OF that, of "py_remove NL (encodestring data)"]
    by (simp add: a2b_base64_encoded)
  then show ?thesis by (simp add: a2b_base64_encoded)
qed

theorem encode_decode_roundtrip_witness:
  "a2b_base64 (py_remove NL (encodestring (''a b'' @ [NL, CHR 0x01, CHR 0xFF] @ ''c''))) =
       Inr (''a b'' @ [NL, CHR 0x01, CHR 0xFF] @ ''c'')
   \<and> process_line (butlast (command_msg ''LOAD'' (''a b'' @ [NL, CHR 0x01, CHR 0xFF] @ ''c''))) =
       Inr (''LOAD'', Some (''a b'' @ [NL, CHR 0x01, CHR 0xFF] @ ''c''))"
proof -
  have h: "SP \<notin> set ''LOAD''" by simp
  from encode_decode_roundtrip [of "''a b'' @ [NL, CHR 0x01, CHR 0xFF] @ ''c''" "''LOAD''"] h
  show ?thesis by simp
qed

text \<open>
  C3, as the code has it. \<open>candidates_response\<close> strips the whole payload of leading
  and trailing whitespace and splits it at newlines. When the text before the first
  ", " of every row that contains ", " is a decimal integer, it returns, in payload
  order, one record per such row: the count is that integer and the label the text
  after that first ", "; rows without the delimiter are ignored. When one of these
  texts is not an integer the call fails with ValueError (\<open>int\<close> as CPython 2.7
  parses: whitespace is allowed around the number and after its sign). The payload
  "2, foo\\n1, bar\\n" yields exactly the records (2, foo) and (1, bar). The handler
  consumes the response line it decodes.
\<close>

theorem candidates_rows_decoded:
  "(case parse_candidates payload of
      Inr recs \<Rightarrow>
        list_all2 (\<lambda>row r. \<exists>c. first_cut '', '' row c (label r) \<and> py_int c = Some (count r))
          (delimited_rows payload) recs
    | Inl e \<Rightarrow>
        e = ValueError
        \<and> (\<exists>row \<in> set (delimited_rows payload). \<exists>c l. first_cut '', '' row c l \<and> py_int c = None))
   \<and> parse_candidates (''2, foo'' @ [NL] @ ''1, bar'' @ [NL]) =
       Inr [\<lparr>label = ''foo'', count = 2\<rparr>, \<lparr>label = ''bar'', count = 1\<rparr>]
   \<and> (lines s = line # rest \<and> process_line line = Inr (''CANDIDATES'', Some payload) \<longrightarrow>
        candidates_response s =
          (case parse_candidates payload of Inl e \<Rightarrow> Raises e | Inr recs \<Rightarrow> Returns recs,
           s\<lparr>lines := rest\<rparr>))"
proof -
  have rows: "\<forall>row \<in> set (delimited_rows payload). py_in '', '' row"
    by (simp add: delimited_rows_def)
  have 1: "case parse_candidates payload of
      Inr recs \<Rightarrow>
        list_all2 (\<lambda>row r. \<exists>c. first_cut '', '' row c (label r) \<and> py_int c = Some (count r))
          (delimited_rows payload) recs
    | Inl e \<Rightarrow>
        e = ValueError
        \<and> (\<exists>row \<in> set (delimited_rows payload). \<exists>c l. first_cut '', '' row c l \<and> py_int c = None)"
    using candidate_records_rows [OF rows]
    by (simp add: parse_candidates_def candidate_rows_eq)
  have 2: "parse_candidates (''2, foo'' @ [NL] @ ''1, bar'' @ [NL]) =
       Inr [\<lparr>label = ''foo'', count = 2\<rparr>, \<lparr>label = ''bar'', count = 1\<rparr>]"
    by code_simp
  have 3: "candidates_response s =
          (case parse_candidates payload of Inl e \<Rightarrow> Raises e | Inr recs \<Rightarrow> Returns recs,
           s\<lparr>lines := rest\<rparr>)"
    if "lines s = line # rest" "process_line line = Inr (''CANDIDATES'', Some payload)"
    using that by (simp add: candidates_response_def get_line_def split: sum.splits)
  from 1 2 3 show ?thesis by blast
qed

theorem candidates_rows_decoded_witness:
  "process_line ''CANDIDATES MiwgZm9vCjEsIGJhcgo='' =
     Inr (''CANDIDATES'', Some (''2, foo'' @ [NL] @ ''1, bar'' @ [NL]))
   \<and> candidates_response ((init False)\<lparr>lines := [''CANDIDATES MiwgZm9vCjEsIGJhcgo='']\<rparr>) =
     (Returns [\<lparr>label = ''foo'', count = 2\<rparr>, \<lparr>label = ''bar'', count = 1\<rparr>],
      (init False)\<lparr>lines := []\<rparr>)
   \<and> (case parse_candidates (''7, a b'' @ [NL] @ ''junk'' @ [NL] @ ''- 3, c, d '') of
        Inr recs \<Rightarrow>
          list_all2 (\<lambda>row r. \<exists>c. first_cut '', '' row c (label r) \<and> py_int c = Some (count r))
            [''7, a b'', ''- 3, c, d''] recs
      | Inl e \<Rightarrow> False)"
proof -
  let ?P = "''2, foo'' @ [NL] @ ''1, bar'' @ [NL]"
  let ?L = "''CANDIDATES MiwgZm9vCjEsIGJhcgo=''"
  let ?Q = "''7, a b'' @ [NL] @ ''junk'' @ [NL] @ ''- 3, c, d ''"
  have p: "process_line ?L = Inr (''CANDIDATES'', Some ?P)"
    by code_simp
  have l: "lines ((init False)\<lparr>lines := [?L]\<rparr>) = ?L # []"
    by simp
  note t = candidates_rows_decoded [of ?P "(init False)\<lparr>lines := [?L]\<rparr>" ?L "[]"]
  have 1: "candidates_response ((init False)\<lparr>lines := [?L]\<rparr>) =
     (Returns [\<lparr>label = ''foo'', count = 2\<rparr>, \<lparr>label = ''bar'', count = 1\<rparr>],
      (init False)\<lparr>lines := []\<rparr>)"
    using t [THEN conjunct2, THEN conjunct2] t [THEN conjunct2, THEN conjunct1] p l by simp
  have d: "delimited_rows ?Q = [''7, a b'', ''- 3, c, d'']"
    by code_simp
  have q: "parse_candidates ?Q = Inr [\<lparr>label = ''a b'', count = 7\<rparr>, \<lparr>label = ''c, d'', count = - 3\<rparr>]"
    by code_simp
  have 2: "case parse_candidates ?Q of
        Inr recs \<Rightarrow>
          list_all2 (\<lambda>row r. \<exists>c. first_cut '', '' row c (label r) \<and> py_int c = Some (count r))
            [''7, a b'', ''- 3, c, d''] recs
      | Inl e \<Rightarrow> False"
    using candidates_rows_decoded [of ?Q, THEN conjunct1] d q by simp
  show ?thesis by (intro conjI p 1 2)
qed

text \<open>
  C3 as stated fails twice: the payload "2, \\n" has the row "2, ", which contains the
  delimiter, and the result holds no record for it (stripping the payload removed the
  row's trailing space); and the payload "x, foo" has a row with the delimiter and the
  call returns nothing, it raises ValueError.
\<close>

theorem candidates_rows_counterexample:
  "py_split [NL] (''2, '' @ [NL]) = [''2, '', '''']
   \<and> py_in '', '' ''2, ''
   \<and> parse_candidates (''2, '' @ [NL]) = Inr []
   \<and> py_in '', '' ''x, foo''
   \<and> parse_candidates ''x, foo'' = Inl ValueError"
  by code_simp

text \<open>
  C4. For every byte stream and every way of cutting it into successive non-empty
  chunks (an empty read is end of file, so no two boundaries coincide), the reader
  that is fed the chunks one at a time appends the same lines, in the same order, as
  the reader fed the whole stream in one read, and is left with the same remainder;
  the lines, each with its newline, followed by the remainder are the stream itself:
  no byte is dropped or reordered.
\<close>

theorem chunking_invariance:
  assumes "\<forall>c \<in> set chunks. c \<noteq> []" and "chunks \<noteq> []"
  shows "listen (map Data chunks) s = listen [Data (concat chunks)] s
       \<and> listen (map Data chunks) s =
           (Reading (remainder (concat chunks)), append_lines (complete_lines (concat chunks)) s)
       \<and> lines (snd (listen (map Data chunks) s)) = lines s @ complete_lines (concat chunks)
       \<and> concat (map (\<lambda>l. l @ [NL]) (complete_lines (concat chunks))) @ remainder (concat chunks)
           = concat chunks"
proof -
  let ?t = "concat chunks"
  have whole: "listen_loop [] (map Data cs) s =
      (Reading (remainder (concat cs)), append_lines (complete_lines (concat cs)) s)"
    if "\<forall>c \<in> set cs. c \<noteq> []" for cs
    using listen_loop_chunks [OF that, of "[]" "[]" s] listen_loop_no_NL(1) [OF remainder_free]
    by simp
  from assms have "?t \<noteq> []" by (cases chunks) auto
  then have one: "\<forall>c \<in> set [?t]. c \<noteq> []" by simp
  have a: "listen (map Data chunks) s = (Reading (remainder ?t), append_lines (complete_lines ?t) s)"
    using whole [OF assms(1)] by (simp add: listen_def)
  have b: "listen [Data ?t] s = (Reading (remainder ?t), append_lines (complete_lines ?t) s)"
    using whole [OF one] by (simp add: listen_def)
  have c: "concat (map (\<lambda>l. l @ [NL]) (complete_lines ?t)) @ remainder ?t = ?t"
    using join_split [of NL ?t] by (simp add: complete_lines_def remainder_def)
  from a b c show ?thesis by (simp add: lines_append_lines)
qed

theorem chunking_invariance_witness:
  "listen (map Data [''O'', ''K'' @ [NL] @ ''ERR'', ''OR eA=='' @ [NL] @ ''x'']) (init False) =
     listen [Data (''OK'' @ [NL] @ ''ERROR eA=='' @ [NL] @ ''x'')] (init False)
   \<and> lines (snd (listen (map Data [''O'', ''K'' @ [NL] @ ''ERR'', ''OR eA=='' @ [NL] @ ''x'']) (init False))) =
     [''OK'', ''ERROR eA=='']"
proof -
  have h: "\<forall>c \<in> set [''O'', ''K'' @ [NL] @ ''ERR'', ''OR eA=='' @ [NL] @ ''x'']. c \<noteq> []" by simp
  have n: "[''O'', ''K'' @ [NL] @ ''ERR'', ''OR eA=='' @ [NL] @ ''x''] \<noteq> []" by simp
  have cl: "complete_lines (''OK'' @ [NL] @ ''ERROR eA=='' @ [NL] @ ''x'') = [''OK'', ''ERROR eA=='']"
    by (simp add: complete_lines_def py_split_char_Cons py_split_char_Nil)
  note t = chunking_invariance [OF h n, of "init False"]
  have 1: "listen (map Data [''O'', ''K'' @ [NL] @ ''ERR'', ''OR eA=='' @ [NL] @ ''x'']) (init False) =
     listen [Data (''OK'' @ [NL] @ ''ERROR eA=='' @ [NL] @ ''x'')] (init False)"
    using t [THEN conjunct1] by simp
  have 2: "lines (snd (listen (map Data [''O'', ''K'' @ [NL] @ ''ERR'', ''OR eA=='' @ [NL] @ ''x'']) (init False))) =
     [''OK'', ''ERROR eA=='']"
    using t [THEN conjunct2, THEN conjunct2, THEN conjunct1] cl by (simp add: init_def)
  show ?thesis by (intro conjI 1 2)
qed

text \<open>
  C5. A \<open>load\<close> call whose response line parses to the verb OK, with or without a
  payload, returns \<open>True\<close>; with the verb ERROR it raises \<open>Exception\<close> carrying exactly
  the decoded payload; with any other verb it raises the "bad command recieved"
  exception. In each case the line is consumed and \<open>slicer_lock\<close> is released, and a
  call that was parked and is woken with the line queued ends the same way. (A
  payload that is not base64 makes \<open>process_line\<close> raise before the verb is looked at.)
\<close>

theorem load_response_dispatch:
  assumes "\<not> slicer_lock s" and "lines s = line # rest"
    and "process_line line = Inr (verb, payload)"
  shows "(verb = ''OK'' \<longrightarrow> fst (load path s) = Returns True)
       \<and> (verb = ''ERROR'' \<longrightarrow> fst (load path s) = Raises (Exception payload))
       \<and> (verb \<noteq> ''OK'' \<and> verb \<noteq> ''ERROR'' \<longrightarrow>
            fst (load path s) = Raises (Exception (Some (bad_command verb payload))))
       \<and> snd (load path s) = act (StdinWrite (command_msg ''LOAD'' path)) (s\<lparr>lines := rest\<rparr>)
       \<and> fst (finish_command generic_response (s\<lparr>slicer_lock := True\<rparr>)) = fst (load path s)"
  using assms
  by (simp add: load_def command_def finish_command_def generic_response_def get_line_def act_def)

theorem load_response_dispatch_witness:
  "fst (load ''path/to/x'' ((init False)\<lparr>lines := [''OK '']\<rparr>)) = Returns True
   \<and> fst (load ''path/to/x'' ((init False)\<lparr>lines := [''OK'']\<rparr>)) = Returns True
   \<and> fst (load ''path/to/x'' ((init False)\<lparr>lines := [''ERROR ZmlsZSBub3QgZm91bmQ='']\<rparr>)) =
       Raises (Exception (Some ''file not found''))
   \<and> fst (load ''path/to/x'' ((init False)\<lparr>lines := [''GRAPH eA=='']\<rparr>)) =
       Raises (Exception (Some ''bad command recieved GRAPH x''))"
proof -
  have l: "\<not> slicer_lock ((init False)\<lparr>lines := ls\<rparr>)" "lines ((init False)\<lparr>lines := [x]\<rparr>) = x # []"
    for ls x
    by (simp_all add: init_def)
  have p1: "process_line ''OK '' = Inr (''OK'', Some [])"
    using process_line_payload [of "''OK''" "[]"] by (simp add: a2b_base64_def)
  have p2: "process_line ''OK'' = Inr (''OK'', None)"
    by (simp add: process_line_bare)
  have d3: "a2b_base64 ''ZmlsZSBub3QgZm91bmQ='' = Inr ''file not found''"
    by code_simp
  have p3: "process_line ''ERROR ZmlsZSBub3QgZm91bmQ='' = Inr (''ERROR'', Some ''file not found'')"
    using process_line_payload [of "''ERROR''" "''ZmlsZSBub3QgZm91bmQ=''"] d3 by simp
  have d4: "a2b_base64 ''eA=='' = Inr ''x''"
    by code_simp
  have p4: "process_line ''GRAPH eA=='' = Inr (''GRAPH'', Some ''x'')"
    using process_line_payload [of "''GRAPH''" "''eA==''"] d4 by simp
  have 1: "fst (load ''path/to/x'' ((init False)\<lparr>lines := [''OK '']\<rparr>)) = Returns True"
    using load_response_dispatch [OF l p1, THEN conjunct1] by simp
  have 2: "fst (load ''path/to/x'' ((init False)\<lparr>lines := [''OK'']\<rparr>)) = Returns True"
    using load_response_dispatch [OF l p2, THEN conjunct1] by simp
  have 3: "fst (load ''path/to/x'' ((init False)\<lparr>lines := [''ERROR ZmlsZSBub3QgZm91bmQ='']\<rparr>)) =
       Raises (Exception (Some ''file not found''))"
    using load_response_dispatch [OF l p3, THEN conjunct2, THEN conjunct1] by simp
  have 4: "fst (load ''path/to/x'' ((init False)\<lparr>lines := [''GRAPH eA=='']\<rparr>)) =
       Raises (Exception (Some ''bad command recieved GRAPH x''))"
    using load_response_dispatch [OF l p4, THEN conjunct2, THEN conjunct2, THEN conjunct1]
    by (simp add: bad_command_def)
  show ?thesis by (intro conjI 1 2 3 4)
qed


text \<open>
  C6, as the code has it. On a closed connection with an empty queue and
  \<open>slicer_lock\<close> free, \<open>get_line\<close> raises "queued connection closed" instead of
  waiting and leaves the object as it is. A command fails too, and never waits or
  blocks, but it fails in the write: a completed shutdown has killed and reaped the
  subprocess, so \<open>self.p.stdin.write\<close> raises the broken-pipe error, the lock is
  released, nothing is written and \<open>get_line\<close> is not reached. Only a command whose
  write still goes through raises "queued connection closed".
\<close>

theorem closed_connection_command_fails:
  assumes "closed s" and "lines s = []" and "\<not> slicer_lock s"
  shows "get_line s = (Raises (Exception (Some ''queued connection closed'')), s)
       \<and> (reaped s \<longrightarrow> command_io cmd data response s = (Raises BrokenPipe, s))
       \<and> (\<not> reaped s \<longrightarrow>
            command_io cmd data generic_response s =
              (Raises (Exception (Some ''queued connection closed'')),
               act (StdinWrite (command_msg cmd data)) s)
            \<and> command_io cmd data candidates_response s =
              (Raises (Exception (Some ''queued connection closed'')),
               act (StdinWrite (command_msg cmd data)) s))
       \<and> (\<exists>e. fst (command_io cmd data generic_response s) = Raises e)
       \<and> (\<exists>e. fst (command_io cmd data candidates_response s) = Raises e)
       \<and> (\<not> closed s0 \<and> \<not> slicer_lock s0 \<longrightarrow>
            closed (snd (close_impl from_read s0)) \<and> reaped (snd (close_impl from_read s0))
            \<and> \<not> slicer_lock (snd (close_impl from_read s0)))"
proof -
  let ?w = "act (StdinWrite (command_msg cmd data)) (s\<lparr>slicer_lock := True\<rparr>)"
  have w: "closed ?w" "lines ?w = []"
    using assms by (simp_all add: act_def)
  have unlock: "?w\<lparr>slicer_lock := False\<rparr> = act (StdinWrite (command_msg cmd data)) s"
    using assms(3) by (simp add: act_def)
  have same: "(s\<lparr>slicer_lock := True\<rparr>)\<lparr>slicer_lock := False\<rparr> = s"
    using assms(3) by simp
  have 1: "get_line s = (Raises (Exception (Some ''queued connection closed'')), s)"
    by (rule get_line_closed [OF assms(1,2)])
  have 2: "command_io cmd data response s = (Raises BrokenPipe, s)" if "reaped s"
    using that assms(3) same by (simp add: command_io_def stdin_write_def reaped_def)
  have 3: "command_io cmd data generic_response s =
              (Raises (Exception (Some ''queued connection closed'')),
               act (StdinWrite (command_msg cmd data)) s)" if "\<not> reaped s"
    using that assms(3) get_line_closed [OF w] unlock
    by (simp add: command_io_def stdin_write_def reaped_def finish_command_def
        generic_response_def)
  have 4: "command_io cmd data candidates_response s =
              (Raises (Exception (Some ''queued connection closed'')),
               act (StdinWrite (command_msg cmd data)) s)" if "\<not> reaped s"
    using that assms(3) get_line_closed [OF w] unlock
    by (simp add: command_io_def stdin_write_def reaped_def finish_command_def
        candidates_response_def)
  have 5: "\<exists>e. fst (command_io cmd data generic_response s) = Raises e"
    using 3 assms(3) by (cases "reaped s") (auto simp add: command_io_def stdin_write_def reaped_def)
  have 6: "\<exists>e. fst (command_io cmd data candidates_response s) = Raises e"
    using 4 assms(3) by (cases "reaped s") (auto simp add: command_io_def stdin_write_def reaped_def)
  from 1 2 3 4 5 6 close_impl_reaps [of s0 from_read] show ?thesis by blast
qed

theorem closed_connection_command_fails_witness:
  "closed (snd (close (init False))) \<and> lines (snd (close (init False))) = []
   \<and> \<not> slicer_lock (snd (close (init False))) \<and> reaped (snd (close (init False)))
   \<and> get_line (snd (close (init False))) =
       (Raises (Exception (Some ''queued connection closed'')), snd (close (init False)))
   \<and> command_io ''LOAD'' ''x'' generic_response (snd (close (init False))) =
       (Raises BrokenPipe, snd (close (init False)))"
proof -
  let ?s = "snd (close (init False))"
  have h: "closed ?s" "lines ?s = []" "\<not> slicer_lock ?s"
    by (simp_all add: close_def close_impl_def close_locked_def init_def Let_def notifyAll_def
        set_closed_def act_def)
  have r: "reaped ?s"
    by (simp add: reaped_def close_def close_impl_def close_locked_def init_def Let_def
        notifyAll_def set_closed_def act_def)
  note t = closed_connection_command_fails [OF h, of "''LOAD''" "''x''" generic_response]
  have 1: "get_line ?s = (Raises (Exception (Some ''queued connection closed'')), ?s)"
    using t by (rule conjunct1)
  have 2: "command_io ''LOAD'' ''x'' generic_response ?s = (Raises BrokenPipe, ?s)"
    using t [THEN conjunct2, THEN conjunct1] r by simp
  show ?thesis by (intro conjI h r 1 2)
qed


text \<open>
  C6 as stated fails after \<open>close()\<close> on a fresh object: the connection is closed, the
  queue is empty, and \<open>load\<close>'s command fails with the broken-pipe error of the write,
  not with the closed-connection error.
\<close>

theorem closed_connection_counterexample:
  "closed (snd (close (init False))) \<and> lines (snd (close (init False))) = []
   \<and> fst (command_io ''LOAD'' ''x'' generic_response (snd (close (init False)))) =
       Raises BrokenPipe
   \<and> fst (command_io ''LOAD'' ''x'' generic_response (snd (close (init False)))) \<noteq>
       Raises (Exception (Some ''queued connection closed''))"
  by (simp add: command_io_def stdin_write_def reaped_def close_def close_impl_def
      close_locked_def init_def Let_def notifyAll_def set_closed_def act_def)

text \<open>
  C7. On a connection whose closed flag is set, \<open>close()\<close> changes nothing and raises
  nothing (it returns, or blocks for as long as \<open>slicer_lock\<close> is held); \<open>_close\<close> from
  either caller never raises and changes no field but the debug output, and nothing
  at all unless it is the reader's call with \<open>debug\<close> on. Over any sequence of calls on
  a fresh object, \<open>kill\<close>, \<open>join\<close> and \<open>wait\<close> each happen at most once.
\<close>

theorem close_again_is_noop:
  "(closed s \<longrightarrow>
      close s = (if slicer_lock s then Blocks else Returns (), s)
      \<and> (\<forall>e. fst (close_impl from_read s) \<noteq> Raises e)
      \<and> snd (close_impl from_read s) = s\<lparr>stderr := stderr (snd (close_impl from_read s))\<rparr>
      \<and> (\<not> (debug s \<and> from_read) \<longrightarrow> snd (close_impl from_read s) = s))
   \<and> count_list (trace (run_calls calls (init dbg))) Kill \<le> 1
   \<and> count_list (trace (run_calls calls (init dbg))) JoinReader \<le> 1
   \<and> count_list (trace (run_calls calls (init dbg))) WaitProc \<le> 1"
proof -
  have a: "close s = (if slicer_lock s then Blocks else Returns (), s)" if "closed s"
    using that by (simp add: close_def close_impl_def close_locked_def)
  have b: "fst (close_impl from_read s) \<noteq> Raises e" for e
    by (simp add: close_impl_def close_locked_def Let_def)
  have c: "snd (close_impl from_read s) = s\<lparr>stderr := stderr (snd (close_impl from_read s))\<rparr>"
    if "closed s"
    using that by (simp add: close_impl_def close_locked_def Let_def print_err_def)
  have d: "snd (close_impl from_read s) = s" if "closed s" "\<not> (debug s \<and> from_read)"
    using that by (auto simp add: close_impl_def close_locked_def Let_def)
  have e: "reaped_once (run_calls calls (init dbg))"
    by (rule reaped_once_run_calls [OF reaped_once_init])
  then have f: "count_list (trace (run_calls calls (init dbg))) Kill \<le> 1"
    "count_list (trace (run_calls calls (init dbg))) JoinReader \<le> 1"
    "count_list (trace (run_calls calls (init dbg))) WaitProc \<le> 1"
    by (simp_all add: reaped_once_def split: if_splits)
  from a b c d f show ?thesis by blast
qed

theorem close_again_is_noop_witness:
  "closed (snd (close (init True)))
   \<and> close (snd (close (init True))) = (Returns (), snd (close (init True)))
   \<and> snd (close_impl False (snd (close (init True)))) = snd (close (init True))
   \<and> count_list (trace (run_calls [CallClose, CallReaderClose, CallLoad ''x'', CallClose] (init True))) Kill
       \<le> 1"
proof -
  let ?s = "snd (close (init True))"
  have h: "closed ?s" "\<not> slicer_lock ?s"
    by (simp_all add: close_def close_impl_def close_locked_def init_def Let_def notifyAll_def
        set_closed_def act_def print_err_def)
  note t = close_again_is_noop [of ?s False "[CallClose, CallReaderClose, CallLoad ''x'', CallClose]" True]
  have 1: "close ?s = (Returns (), ?s)"
    using t [THEN conjunct1] h by simp
  have 2: "snd (close_impl False ?s) = ?s"
    using t [THEN conjunct1] h by simp
  have 3: "count_list (trace (run_calls [CallClose, CallReaderClose, CallLoad ''x'', CallClose] (init True))) Kill \<le> 1"
    using t [THEN conjunct2] by simp
  show ?thesis by (intro conjI h(1) 1 2 3)
qed

text \<open>
  C8. When \<open>os.read\<close> returns the empty string while the buffer holds text without a
  newline, the loop calls \<open>_close(True)\<close> and returns: the queue is what it was, the
  buffered text is never appended. With \<open>slicer_lock\<close> free the shutdown runs and the
  connection is closed; with the lock held the reader is left inside \<open>_close(True)\<close>.
  Over a whole stream cut into non-empty chunks and ended by end of file, the queue
  gains exactly the complete lines of the stream.
\<close>

theorem eof_discards_partial_line:
  assumes "NL \<notin> set chunk"
  shows "listen_loop chunk (Data [] # rs) s = close_from_reader s
       \<and> lines (snd (close_from_reader s)) = lines s
       \<and> (\<not> slicer_lock s \<longrightarrow>
            fst (close_from_reader s) = Exited \<and> closed (snd (close_from_reader s)))
       \<and> (slicer_lock s \<longrightarrow> fst (close_from_reader s) = Closing)
       \<and> ((\<forall>c \<in> set chunks. c \<noteq> []) \<longrightarrow>
            lines (snd (listen (map Data chunks @ Data [] # rs) s)) =
              lines s @ complete_lines (concat chunks))"
proof -
  have "lines (snd (listen (map Data chunks @ Data [] # rs) s)) =
          lines s @ complete_lines (concat chunks)"
    if ne: "\<forall>c \<in> set chunks. c \<noteq> []"
  proof -
    have "listen (map Data chunks @ Data [] # rs) s =
        close_from_reader (append_lines (complete_lines (concat chunks)) s)"
      using listen_loop_chunks [OF ne, of "[]" "Data [] # rs" s]
        listen_loop_no_NL(3) [OF remainder_free]
      by (simp add: listen_def)
    then show ?thesis
      by (simp add: close_from_reader_lines lines_append_lines)
  qed
  then show ?thesis
    using listen_loop_no_NL(3) [OF assms, of rs s] close_from_reader_lines [of s]
      close_from_reader_free [of s] close_from_reader_held [of s]
    by simp
qed

theorem eof_discards_partial_line_witness:
  "NL \<notin> set ''ERR''
   \<and> listen_loop ''ERR'' [Data []] (init False) = close_from_reader (init False)
   \<and> lines (snd (close_from_reader (init False))) = []
   \<and> fst (close_from_reader (init False)) = Exited
   \<and> closed (snd (close_from_reader (init False)))
   \<and> lines (snd (listen (map Data [''OK'' @ [NL] @ ''ERR''] @ [Data []]) (init False))) = [''OK'']"
proof -
  have h: "NL \<notin> set ''ERR''" by simp
  have cl: "complete_lines (''OK'' @ [NL] @ ''ERR'') = [''OK'']"
    by (simp add: complete_lines_def py_split_char_Cons py_split_char_Nil)
  note t = eof_discards_partial_line [OF h, of "[]" "init False" "[''OK'' @ [NL] @ ''ERR'']"]
  have f: "\<not> slicer_lock (init False)" "lines (init False) = []"
    by (simp_all add: init_def)
  have 1: "listen_loop ''ERR'' [Data []] (init False) = close_from_reader (init False)"
    using t by simp
  have 2: "lines (snd (close_from_reader (init False))) = []"
    using t f by simp
  have 3: "fst (close_from_reader (init False)) = Exited" "closed (snd (close_from_reader (init False)))"
    using t f by simp_all
  have 4: "lines (snd (listen (map Data [''OK'' @ [NL] @ ''ERR''] @ [Data []]) (init False))) = [''OK'']"
    using t f cl by simp
  show ?thesis by (intro conjI h 1 2 3 4)
qed

text \<open>
  C9. The \<open>_close\<close> call that finds the flag unset (with \<open>slicer_lock\<close> free) returns
  after these steps, in this order: set the closed flag, \<open>notifyAll\<close>, \<open>kill\<close>, then
  \<open>join\<close> of the reader thread only when \<open>from_read\<close> is false, then \<open>wait\<close>. It leaves
  the connection closed, no thread waiting, and the lock free.
\<close>

theorem winning_close_order:
  assumes "\<not> closed s" and "\<not> slicer_lock s"
  shows "fst (close_impl from_read s) = Returns ()
       \<and> trace (snd (close_impl from_read s)) =
           trace s @ [SetClosed, NotifyAll, Kill] @ (if from_read then [] else [JoinReader])
             @ [WaitProc]
       \<and> closed (snd (close_impl from_read s))
       \<and> waiting (snd (close_impl from_read s)) = 0
       \<and> \<not> slicer_lock (snd (close_impl from_read s))"
  using assms
  by (simp add: close_impl_def close_locked_def Let_def notifyAll_def set_closed_def act_def
      print_err_def)

theorem winning_close_order_witness:
  "\<not> closed (init False) \<and> \<not> slicer_lock (init False)
   \<and> trace (snd (close_impl False (init False))) =
       [Popen, StartReader, SetClosed, NotifyAll, Kill, JoinReader, WaitProc]
   \<and> trace (snd (close_impl True (init False))) =
       [Popen, StartReader, SetClosed, NotifyAll, Kill, WaitProc]"
proof -
  have h: "\<not> closed (init False)" "\<not> slicer_lock (init False)"
    by (simp_all add: init_def)
  have t: "trace (init False) = [Popen, StartReader]"
    by (simp add: init_def)
  from winning_close_order [OF h, of False] winning_close_order [OF h, of True] h t
  show ?thesis by simp
qed

text \<open>
  C10. \<open>get_line\<close> looks at the closed flag only when the queue is empty: with a line
  queued it pops the oldest line and its outcome is that of \<open>process_line\<close> on it,
  closed or not; it raises "queued connection closed" exactly when the queue is
  empty and the flag is set.
\<close>

theorem get_line_prefers_queue:
  "(lines s = line # rest \<longrightarrow>
      get_line s = (case process_line line of Inl e \<Rightarrow> Raises e | Inr r \<Rightarrow> Returns r,
                    s\<lparr>lines := rest\<rparr>))
   \<and> (fst (get_line s) = Raises (Exception (Some ''queued connection closed''))
        \<longleftrightarrow> lines s = [] \<and> closed s)"
proof -
  have 1: "get_line s = (case process_line line of Inl e \<Rightarrow> Raises e | Inr r \<Rightarrow> Returns r,
                    s\<lparr>lines := rest\<rparr>)" if "lines s = line # rest"
    using that by (simp add: get_line_def split: sum.splits)
  have 2: "fst (get_line s) = Raises (Exception (Some ''queued connection closed''))
        \<longleftrightarrow> lines s = [] \<and> closed s"
  proof (cases "lines s")
    case Nil
    then show ?thesis by (simp add: get_line_def)
  next
    case (Cons l ls)
    then show ?thesis
      by (auto simp add: get_line_def split: sum.splits dest: process_line_error)
  qed
  from 1 2 show ?thesis by blast
qed

theorem get_line_prefers_queue_witness:
  "lines ((init False)\<lparr>lines := [''OK''], closed := True\<rparr>) = ''OK'' # []
   \<and> get_line ((init False)\<lparr>lines := [''OK''], closed := True\<rparr>) =
       (Returns (''OK'', None), (init False)\<lparr>lines := [], closed := True\<rparr>)
   \<and> fst (get_line ((init False)\<lparr>lines := [], closed := True\<rparr>)) =
       Raises (Exception (Some ''queued connection closed''))"
proof -
  let ?s = "(init False)\<lparr>lines := [''OK''], closed := True\<rparr>"
  have h: "lines ?s = ''OK'' # []" by simp
  have p: "process_line ''OK'' = Inr (''OK'', None)"
    by (simp add: process_line_bare)
  have 1: "get_line ?s = (Returns (''OK'', None), (init False)\<lparr>lines := [], closed := True\<rparr>)"
    using get_line_prefers_queue [of ?s "''OK''" "[]", THEN conjunct1] h p by simp
  have 2: "fst (get_line ((init False)\<lparr>lines := [], closed := True\<rparr>)) =
       Raises (Exception (Some ''queued connection closed''))"
    using get_line_prefers_queue [of "(init False)\<lparr>lines := [], closed := True\<rparr>", THEN conjunct2]
    by simp
  show ?thesis by (intro conjI h 1 2)
qed

end
